theory Spec2Isabelle
  imports Complex_Main
begin

section \<open>JavaScript numbers, as far as the layout code needs them\<close>

text \<open>
  Ranks, orders and weights are JavaScript numbers. The model keeps the finite values
  exactly (as rationals, which contain every double), the two infinities and NaN.
  \<open>Math.min\<close> and \<open>Math.max\<close> only compare, so they are exact on this type.
  The comparison \<open>a < b\<close> of the source is \<open>lt a b\<close>: false as soon as one side is NaN.
\<close>

datatype number = NaN | NInf | Num rat | PInf

fun lt :: "number \<Rightarrow> number \<Rightarrow> bool" where
  "lt NaN _ = False"
| "lt _ NaN = False"
| "lt NInf NInf = False"
| "lt NInf _ = True"
| "lt (Num a) (Num b) = (a < b)"
| "lt (Num a) PInf = True"
| "lt (Num a) NInf = False"
| "lt PInf _ = False"

text \<open>
  \<open>Math.min(...args)\<close>: start from \<open>+Infinity\<close>, return NaN as soon as an argument is NaN,
  else keep the smaller value. \<open>Math.max\<close> is its mirror image from \<open>-Infinity\<close>.
\<close>

definition min2 :: "number \<Rightarrow> number \<Rightarrow> number" where
  "min2 lowest n = (if lowest = NaN \<or> n = NaN then NaN else if lt n lowest then n else lowest)"

definition max2 :: "number \<Rightarrow> number \<Rightarrow> number" where
  "max2 highest n = (if highest = NaN \<or> n = NaN then NaN else if lt highest n then n else highest)"

definition math_min :: "number list \<Rightarrow> number" where
  "math_min args = foldl min2 PInf args"

definition math_max :: "number list \<Rightarrow> number" where
  "math_max args = foldl max2 NInf args"

text \<open>\<open>Number.MIN_VALUE\<close> is the smallest positive double, \<open>Number.MAX_VALUE\<close> the largest finite one.\<close>

definition MIN_VALUE :: number where
  "MIN_VALUE = Num (1 / 2 ^ 1074)"


text \<open>
  Arithmetic on numbers. Finite operands are added, subtracted and divided exactly; the
  infinite and NaN cases follow IEEE 754. Signed zeros are not kept apart.
  Double arithmetic rounds: the one inexact sum the code below can form from integer
  ranks is \<open>Number.MIN_VALUE \<plusminus> k\<close> for an integer \<open>k \<noteq> 0\<close>, which a
  double rounds to \<open>\<plusminus>k\<close>; \<open>add\<close> does the same.
\<close>

definition tiny :: "rat \<Rightarrow> bool" where
  "tiny a = (a \<noteq> 0 \<and> \<bar>a\<bar> \<le> 1 / 2 ^ 1074)"

fun add :: "number \<Rightarrow> number \<Rightarrow> number" where
  "add NaN _ = NaN"
| "add _ NaN = NaN"
| "add PInf NInf = NaN"
| "add NInf PInf = NaN"
| "add PInf _ = PInf"
| "add _ PInf = PInf"
| "add NInf _ = NInf"
| "add _ NInf = NInf"
| "add (Num a) (Num b) =
     (if tiny a \<and> 1 \<le> \<bar>b\<bar> then Num b
      else if tiny b \<and> 1 \<le> \<bar>a\<bar> then Num a
      else Num (a + b))"

fun neg :: "number \<Rightarrow> number" where
  "neg NaN = NaN"
| "neg NInf = PInf"
| "neg PInf = NInf"
| "neg (Num a) = Num (- a)"

definition sub :: "number \<Rightarrow> number \<Rightarrow> number" where
  "sub a b = add a (neg b)"


text \<open>An integer as a number, and \<open>undefined\<close> in arithmetic position (it converts to NaN).\<close>

definition of_rank :: "int \<Rightarrow> number" where
  "of_rank r = Num (of_int r)"

definition to_number :: "number option \<Rightarrow> number" where
  "to_number x = (case x of None \<Rightarrow> NaN | Some n \<Rightarrow> n)"

section \<open>Chunked reduction (lib/util.js)\<close>

definition CHUNKING_THRESHOLD :: nat where
  "CHUNKING_THRESHOLD = 65535"

text \<open>\<open>array.slice(i, j)\<close> for \<open>0 \<le> i \<le> j\<close>.\<close>

definition slice :: "'a list \<Rightarrow> nat \<Rightarrow> nat \<Rightarrow> 'a list" where
  "slice array i j = take (j - i) (drop i array)"

text \<open>
  The loop of \<open>splitToChunks\<close>: \<open>for (let i = 0; i < array.length; i += chunkSize)\<close>.
  The source would loop forever with \<open>chunkSize = 0\<close> on a non-empty array; the only call
  passes the default \<open>CHUNKING_THRESHOLD\<close>, and the guard \<open>0 < chunkSize\<close> makes the
  model total.
\<close>

function chunks_from :: "nat \<Rightarrow> 'a list \<Rightarrow> nat \<Rightarrow> 'a list list" where
  "chunks_from i array chunkSize =
     (if i < length array \<and> 0 < chunkSize
      then slice array i (i + chunkSize) # chunks_from (i + chunkSize) array chunkSize
      else [])"
  by pat_completeness auto
termination
  by (relation "measure (\<lambda>(i, array, chunkSize). length array - i)") auto

declare chunks_from.simps [simp del]

definition splitToChunks :: "'a list \<Rightarrow> nat \<Rightarrow> 'a list list" where
  "splitToChunks array chunkSize = chunks_from 0 array chunkSize"

definition applyWithChunking :: "(number list \<Rightarrow> number) \<Rightarrow> number list \<Rightarrow> number" where
  "applyWithChunking fn argsArray =
     (if length argsArray > CHUNKING_THRESHOLD
      then (let chunks = splitToChunks argsArray CHUNKING_THRESHOLD
            in fn (map fn chunks))
      else fn argsArray)"

subsection \<open>The chunked reduction equals the plain one\<close>

lemma min2_assoc: "min2 (min2 a b) c = min2 a (min2 b c)"
  by (cases a; cases b; cases c) (auto simp: min2_def)

lemma max2_assoc: "max2 (max2 a b) c = max2 a (max2 b c)"
  by (cases a; cases b; cases c) (auto simp: max2_def)

lemma min2_PInf [simp]: "min2 PInf a = a" "min2 a PInf = a"
  by (cases a; simp add: min2_def)+

lemma max2_NInf [simp]: "max2 NInf a = a" "max2 a NInf = a"
  by (cases a; simp add: max2_def)+

lemma foldl_min2: "foldl min2 a xs = min2 a (foldl min2 PInf xs)"
proof (induction xs arbitrary: a)
  case Nil
  show ?case by simp
next
  case (Cons x xs)
  have "foldl min2 a (x # xs) = min2 (min2 a x) (foldl min2 PInf xs)"
    using Cons.IH [of "min2 a x"] by simp
  also have "\<dots> = min2 a (min2 x (foldl min2 PInf xs))"
    by (rule min2_assoc)
  also have "\<dots> = min2 a (foldl min2 PInf (x # xs))"
    using Cons.IH [of x] by simp
  finally show ?case .
qed

lemma foldl_max2: "foldl max2 a xs = max2 a (foldl max2 NInf xs)"
proof (induction xs arbitrary: a)
  case Nil
  show ?case by simp
next
  case (Cons x xs)
  have "foldl max2 a (x # xs) = max2 (max2 a x) (foldl max2 NInf xs)"
    using Cons.IH [of "max2 a x"] by simp
  also have "\<dots> = max2 a (max2 x (foldl max2 NInf xs))"
    by (rule max2_assoc)
  also have "\<dots> = max2 a (foldl max2 NInf (x # xs))"
    using Cons.IH [of x] by simp
  finally show ?case .
qed

lemma math_min_Nil [simp]: "math_min [] = PInf"
  by (simp add: math_min_def)

lemma math_max_Nil [simp]: "math_max [] = NInf"
  by (simp add: math_max_def)

lemma math_min_Cons: "math_min (x # xs) = min2 x (math_min xs)"
  using foldl_min2 [of x xs] by (simp add: math_min_def)

lemma math_max_Cons: "math_max (x # xs) = max2 x (math_max xs)"
  using foldl_max2 [of x xs] by (simp add: math_max_def)

lemma math_min_append: "math_min (xs @ ys) = min2 (math_min xs) (math_min ys)"
  by (induction xs) (simp_all add: math_min_Cons min2_assoc)

lemma math_max_append: "math_max (xs @ ys) = max2 (math_max xs) (math_max ys)"
  by (induction xs) (simp_all add: math_max_Cons max2_assoc)

lemma math_min_concat: "math_min (map math_min xss) = math_min (concat xss)"
  by (induction xss) (simp_all add: math_min_Cons math_min_append)

lemma math_max_concat: "math_max (map math_max xss) = math_max (concat xss)"
  by (induction xss) (simp_all add: math_max_Cons math_max_append)

lemma concat_chunks_from:
  "0 < chunkSize \<Longrightarrow> concat (chunks_from i array chunkSize) = drop i array"
proof (induction i array chunkSize rule: chunks_from.induct)
  case (1 i array chunkSize)
  show ?case
  proof (cases "i < length array")
    case True
    have "concat (chunks_from i array chunkSize)
            = take chunkSize (drop i array) @ drop (i + chunkSize) array"
      using True 1 by (subst chunks_from.simps) (simp add: slice_def)
    also have "\<dots> = drop i array"
      by (metis append_take_drop_id drop_drop add.commute)
    finally show ?thesis .
  next
    case False
    then show ?thesis by (subst chunks_from.simps) simp
  qed
qed

lemma concat_splitToChunks: "concat (splitToChunks array CHUNKING_THRESHOLD) = array"
  by (simp add: splitToChunks_def concat_chunks_from CHUNKING_THRESHOLD_def)

lemma applyWithChunking_math_min [simp]: "applyWithChunking math_min xs = math_min xs"
  by (simp add: applyWithChunking_def Let_def math_min_concat concat_splitToChunks)

lemma applyWithChunking_math_max [simp]: "applyWithChunking math_max xs = math_max xs"
  by (simp add: applyWithChunking_def Let_def math_max_concat concat_splitToChunks)

text \<open>
  C6. For the reducers \<open>Math.min\<close> and \<open>Math.max\<close> and every finite sequence, of any
  length, the chunked reduction returns what the reducer returns on the whole sequence.
\<close>

theorem applyWithChunking_min_max:
  "applyWithChunking math_min xs = math_min xs \<and> applyWithChunking math_max xs = math_max xs"
  by (simp add: applyWithChunking_def Let_def math_min_concat math_max_concat
      concat_splitToChunks)

subsection \<open>Integer-valued numbers\<close>

lemma not_tiny_of_int [simp]: "\<not> tiny (of_int a)"
proof
  assume t: "tiny (of_int a)"
  then have "a \<noteq> 0" by (auto simp: tiny_def)
  then have "(1::rat) \<le> \<bar>of_int a\<bar>"
    by (metis abs_ge_zero of_int_abs of_int_1_le_iff zero_less_abs_iff int_one_le_iff_zero_less)
  moreover have "(1::rat) / 2 ^ 1074 < 1" by simp
  ultimately show False using t by (simp add: tiny_def)
qed

lemma add_of_rank [simp]: "add (of_rank a) (of_rank b) = of_rank (a + b)"
  by (simp add: of_rank_def)

lemma sub_of_rank [simp]: "sub (of_rank a) (of_rank b) = of_rank (a - b)"
proof -
  have "neg (of_rank b) = of_rank (- b)" by (simp add: of_rank_def)
  then show ?thesis by (simp add: sub_def)
qed

lemma of_rank_inj [simp]: "(of_rank a = of_rank b) = (a = b)"
  by (simp add: of_rank_def)

lemma of_rank_distinct [simp]: "of_rank a \<noteq> PInf" "of_rank a \<noteq> NaN" "of_rank a \<noteq> NInf"
  "PInf \<noteq> of_rank a" "NaN \<noteq> of_rank a" "NInf \<noteq> of_rank a"
  by (simp_all add: of_rank_def)

lemma lt_of_rank [simp]: "lt (of_rank a) (of_rank b) = (a < b)"
  by (simp add: of_rank_def)

lemma min2_of_rank [simp]: "min2 (of_rank a) (of_rank b) = of_rank (min a b)"
  by (auto simp: min2_def)

lemma max2_of_rank [simp]: "max2 (of_rank a) (of_rank b) = of_rank (max a b)"
  by (auto simp: max2_def)


lemma math_max_of_rank:
  "xs \<noteq> [] \<Longrightarrow> math_max (map of_rank xs) = of_rank (Max (set xs))"
proof (induction xs)
  case Nil
  then show ?case by simp
next
  case (Cons x xs)
  show ?case
  proof (cases "xs = []")
    case True
    then show ?thesis by (simp add: math_max_Cons)
  next
    case False
    then show ?thesis using Cons.IH by (simp add: math_max_Cons)
  qed
qed

section \<open>The graph (the part of graphlib that lib/util.js, lib/rank/util.js and lib/order use)\<close>

text \<open>
  Node ids are strings. A node label is the object \<open>g.node(v)\<close>: \<open>rank\<close> and \<open>order\<close>
  are absent (\<open>undefined\<close>, here \<open>None\<close>) until assigned. A rank is whatever number the
  code stores (an integer \<open>of_rank r\<close> on well-formed input); orders are array indices. \<open>minRank\<close>, \<open>maxRank\<close>, \<open>borderLeft\<close> and \<open>borderRight\<close> exist on
  cluster nodes only; \<open>node_borderLeft lbl r\<close> is \<open>node.borderLeft[r]\<close>. Every node of a graph carries a label object (pre-condition 2 of
  \<open>order\<close> and of \<open>longestPath\<close>), so \<open>node g\<close> is a total function; a label field
  \<open>x\<close> of the source is \<open>node_x\<close>, \<open>edge_x\<close> or \<open>graph_x\<close> here.
\<close>

type_synonym id = string

record node_label =
  node_rank :: "number option"
  node_order :: "nat option"
  node_minRank :: "int option"
  node_maxRank :: "int option"
  node_borderLeft :: "number \<Rightarrow> id option"
  node_borderRight :: "number \<Rightarrow> id option"
  node_dummy :: "string option"
  node_width :: rat
  node_height :: rat

datatype edge_obj = Edge (e_v: id) (e_w: id) (e_name: "string option")

record edge_label =
  edge_weight :: rat
  edge_minlen :: int

record graph_label =
  graph_nodeRankFactor :: "int option"

text \<open>
  \<open>nodes\<close> is \<open>g.nodes()\<close> in insertion order, \<open>node g v\<close> is \<open>g.node(v)\<close>,
  \<open>parent g v\<close> is \<open>g.parent(v)\<close>, \<open>edges\<close> is \<open>g.edges()\<close>, \<open>edge g e\<close> is
  \<open>g.edge(e)\<close> and \<open>graph g\<close> is \<open>g.graph()\<close>.
\<close>

record Graph =
  nodes :: "id list"
  node :: "id \<Rightarrow> node_label"
  parent :: "id \<Rightarrow> id option"
  edges :: "edge_obj list"
  edge :: "edge_obj \<Rightarrow> edge_label"
  graph :: graph_label

definition hasNode :: "Graph \<Rightarrow> id \<Rightarrow> bool" where
  "hasNode g v = (v \<in> set (nodes g))"

definition inEdges :: "Graph \<Rightarrow> id \<Rightarrow> edge_obj list" where
  "inEdges g v = filter (\<lambda>e. e_w e = v) (edges g)"

definition outEdges :: "Graph \<Rightarrow> id \<Rightarrow> edge_obj list" where
  "outEdges g v = filter (\<lambda>e. e_v e = v) (edges g)"


text \<open>A label with nothing assigned, for building examples.\<close>

definition blank :: node_label where
  "blank = \<lparr> node_rank = None, node_order = None, node_minRank = None, node_maxRank = None,
             node_borderLeft = (\<lambda>_. None), node_borderRight = (\<lambda>_. None),
             node_dummy = None, node_width = 0, node_height = 0 \<rparr>"

section \<open>lib/util.js: uniqueId and addDummyNode\<close>

text \<open>
  \<open>"" + id\<close> is the decimal numeral of the counter. The module-level \<open>idCounter\<close> is
  passed in and returned; it is a natural number (the source's double stops counting
  at \<open>2^53\<close>, which the model does not reach into).
\<close>

definition digit_char :: "nat \<Rightarrow> char" where
  "digit_char d = ''0123456789'' ! d"

fun string_of_nat :: "nat \<Rightarrow> string" where
  "string_of_nat n =
     (if n < 10 then [digit_char n] else string_of_nat (n div 10) @ [digit_char (n mod 10)])"

declare string_of_nat.simps [simp del]

definition uniqueId :: "string \<Rightarrow> nat \<Rightarrow> id \<times> nat" where
  "uniqueId prefix idCounter = (let i = idCounter + 1 in (prefix @ string_of_nat i, i))"

text \<open>
  \<open>g.setNode(v, label)\<close>: a new node is appended to \<open>g.nodes()\<close>; the label is stored
  in both cases.
\<close>

definition setNode :: "Graph \<Rightarrow> id \<Rightarrow> node_label \<Rightarrow> Graph" where
  "setNode g v lbl =
     g\<lparr> nodes := (if hasNode g v then nodes g else nodes g @ [v]),
        node := (node g)(v := lbl) \<rparr>"

subsection \<open>Termination of the probing loop\<close>

lemma distinct_digits: "distinct ''0123456789''"
  by simp

lemma length_digits: "length ''0123456789'' = 10"
  by simp

lemma digit_char_inj: "a < 10 \<Longrightarrow> b < 10 \<Longrightarrow> digit_char a = digit_char b \<Longrightarrow> a = b"
  unfolding digit_char_def
  using distinct_digits length_digits nth_eq_iff_index_eq by metis

lemma string_of_nat_nonempty: "string_of_nat m \<noteq> []"
  by (subst string_of_nat.simps) simp

lemma string_of_nat_length: "10 \<le> n \<Longrightarrow> 2 \<le> length (string_of_nat n)"
  using string_of_nat_nonempty [of "n div 10"]
  by (subst string_of_nat.simps) (cases "string_of_nat (n div 10)"; simp)

lemma string_of_nat_small: "n < 10 \<Longrightarrow> length (string_of_nat n) = 1"
  by (subst string_of_nat.simps) simp

lemma string_of_nat_inj: "string_of_nat n = string_of_nat m \<Longrightarrow> n = m"
proof (induction n arbitrary: m rule: string_of_nat.induct)
  case (1 n)
  show ?case
  proof (cases "n < 10")
    case small: True
    have m: "m < 10"
    proof (rule ccontr)
      assume "\<not> m < 10"
      then have "2 \<le> length (string_of_nat m)" by (simp add: string_of_nat_length)
      with 1(2) string_of_nat_small [OF small] show False by simp
    qed
    have "[digit_char n] = [digit_char m]"
      using 1(2) small m by (simp add: string_of_nat.simps)
    then show ?thesis using digit_char_inj small m by simp
  next
    case big: False
    have m: "\<not> m < 10"
    proof
      assume "m < 10"
      then have "length (string_of_nat m) = 1" by (rule string_of_nat_small)
      moreover have "2 \<le> length (string_of_nat n)" using big by (simp add: string_of_nat_length)
      ultimately show False using 1(2) by simp
    qed
    have "string_of_nat (n div 10) @ [digit_char (n mod 10)]
          = string_of_nat (m div 10) @ [digit_char (m mod 10)]"
      using 1(2) big m by (simp add: string_of_nat.simps [of n] string_of_nat.simps [of m])
    then have a: "string_of_nat (n div 10) = string_of_nat (m div 10)"
      and b: "digit_char (n mod 10) = digit_char (m mod 10)" by simp_all
    have "n div 10 = m div 10" using 1(1) [OF big a] .
    moreover have "n mod 10 = m mod 10" using digit_char_inj [OF _ _ b] by simp
    ultimately show ?thesis by (metis div_mult_mod_eq)
  qed
qed

lemma inj_candidate: "inj (\<lambda>k. name @ string_of_nat k)"
  by (rule injI) (simp add: string_of_nat_inj)

lemma finite_candidates: "finite {k. name @ string_of_nat k \<in> set vs}"
proof -
  have "finite ((\<lambda>k. name @ string_of_nat k) -` set vs)"
    by (rule finite_vimageI [OF _ inj_candidate]) simp
  then show ?thesis by (simp add: vimage_def)
qed

definition pending :: "id list \<Rightarrow> string \<Rightarrow> nat \<Rightarrow> nat" where
  "pending vs name c = card {k. c < k \<and> name @ string_of_nat k \<in> set vs}"

lemma pending_step:
  "pending vs name (Suc c) + (if name @ string_of_nat (Suc c) \<in> set vs then 1 else 0)
     = pending vs name c"
proof -
  let ?A = "{k. Suc c < k \<and> name @ string_of_nat k \<in> set vs}"
  let ?B = "{k. c < k \<and> name @ string_of_nat k \<in> set vs}"
  have fin: "finite ?A" using finite_candidates [of name vs] by (rule rev_finite_subset) auto
  show ?thesis
  proof (cases "name @ string_of_nat (Suc c) \<in> set vs")
    case True
    have "?B = insert (Suc c) ?A" using True by (auto simp: less_Suc_eq Suc_lessI)
    then have "card ?B = Suc (card ?A)" using fin by simp
    then show ?thesis using True by (simp add: pending_def)
  next
    case False
    have "?B = ?A" using False by (auto simp: Suc_lessI) (metis Suc_lessI)
    then show ?thesis using False by (simp add: pending_def)
  qed
qed

function while_hasNode :: "Graph \<Rightarrow> string \<Rightarrow> id \<Rightarrow> nat \<Rightarrow> id \<times> nat" where
  "while_hasNode g name v idCounter =
     (if hasNode g v
      then (case uniqueId name idCounter of (v', idCounter') \<Rightarrow> while_hasNode g name v' idCounter')
      else (v, idCounter))"
  by pat_completeness auto
termination
  apply (relation "measure (\<lambda>(g, name, v, c). pending (nodes g) name c + (if hasNode g v then 1 else 0))")
   apply simp
  subgoal for g name v idCounter
    using pending_step [of "nodes g" name idCounter]
    by (auto simp: uniqueId_def Let_def hasNode_def)
  done

declare while_hasNode.simps [simp del]

definition addDummyNode ::
  "Graph \<Rightarrow> string \<Rightarrow> node_label \<Rightarrow> string \<Rightarrow> nat \<Rightarrow> id \<times> Graph \<times> nat" where
  "addDummyNode g type attrs name idCounter =
     (case while_hasNode g name name idCounter of
        (v, idCounter') \<Rightarrow> (v, setNode g v (attrs\<lparr>node_dummy := Some type\<rparr>), idCounter'))"

lemma while_hasNode_fresh: "\<not> hasNode g (fst (while_hasNode g name v c))"
proof (induction g name v c rule: while_hasNode.induct)
  case (1 g name v idCounter)
  show ?case
  proof (cases "hasNode g v")
    case True
    obtain v' c' where u: "uniqueId name idCounter = (v', c')" by (cases "uniqueId name idCounter")
    have "while_hasNode g name v idCounter = while_hasNode g name v' c'"
      using True u by (subst while_hasNode.simps) simp
    then show ?thesis using 1 [OF True u [symmetric]] by simp
  next
    case False
    then show ?thesis by (subst while_hasNode.simps) simp
  qed
qed

lemma hasNode_setNode: "hasNode (setNode g v lbl) v"
  by (simp add: setNode_def hasNode_def)

text \<open>
  C7. \<open>addDummyNode\<close> returns (the probing loop is a total function, whatever ids the
  caller has inserted beforehand), and the id it returns is not a node of the graph it was
  given; it is a node of the graph afterwards.
\<close>

theorem addDummyNode_fresh:
  "(case addDummyNode g type attrs name idCounter of
      (v, g', idCounter') \<Rightarrow> \<not> hasNode g v \<and> hasNode g' v)"
  using while_hasNode_fresh [of g name name idCounter]
  by (cases "while_hasNode g name name idCounter") (simp add: addDummyNode_def hasNode_setNode)

text \<open>
  An adversarial graph: the prefix and the next two candidates are taken already.
\<close>

definition ex_taken :: Graph where
  "ex_taken =
     \<lparr> nodes = [''_d'', ''_d1'', ''_d2''],
       node = (\<lambda>_. blank),
       parent = (\<lambda>_. None),
       edges = [],
       edge = (\<lambda>_. \<lparr> edge_weight = 1, edge_minlen = 1 \<rparr>),
       graph = \<lparr> graph_nodeRankFactor = None \<rparr> \<rparr>"

lemma ex_taken_run: "while_hasNode ex_taken ''_d'' ''_d'' 0 = (''_d3'', 3)"
  by (simp add: while_hasNode.simps ex_taken_def hasNode_def uniqueId_def Let_def
      string_of_nat.simps digit_char_def)

theorem addDummyNode_fresh_witness:
  "fst (addDummyNode ex_taken ''border'' blank ''_d'' 0) = ''_d3''
   \<and> \<not> hasNode ex_taken ''_d3''
   \<and> nodes (fst (snd (addDummyNode ex_taken ''border'' blank ''_d'' 0)))
       = [''_d'', ''_d1'', ''_d2'', ''_d3'']"
  using addDummyNode_fresh [of ex_taken "''border''" blank "''_d''" 0]
  by (simp add: addDummyNode_def ex_taken_run setNode_def hasNode_def) (simp add: ex_taken_def)

section \<open>lib/util.js: maxRank\<close>

definition maxRank :: "Graph \<Rightarrow> number" where
  "maxRank g =
     (let nodeRanks = map (\<lambda>v. case node_rank (node g v) of
                                  None \<Rightarrow> MIN_VALUE
                                | Some r \<Rightarrow> r) (nodes g)
      in applyWithChunking math_max nodeRanks)"

definition ex_unranked :: Graph where
  "ex_unranked =
     \<lparr> nodes = [''a'', ''b''],
       node = (\<lambda>v. blank\<lparr> node_rank := (if v = ''a'' then Some (of_rank 0) else None) \<rparr>),
       parent = (\<lambda>_. None),
       edges = [],
       edge = (\<lambda>_. \<lparr> edge_weight = 1, edge_minlen = 1 \<rparr>),
       graph = \<lparr> graph_nodeRankFactor = None \<rparr> \<rparr>"

text \<open>
  C4. On the graph with node \<open>a\<close> at rank 0 and an unranked node \<open>b\<close>, the maximum
  assigned rank is 0, and \<open>maxRank\<close> returns \<open>Number.MIN_VALUE\<close>, a positive number:
  the unranked node decides the result.
\<close>

theorem maxRank_unranked_positive:
  "maxRank ex_unranked = MIN_VALUE \<and> lt (of_rank 0) (maxRank ex_unranked)
   \<and> map (\<lambda>v. node_rank (node ex_unranked v)) (nodes ex_unranked) = [Some (of_rank 0), None]"
  by (simp add: maxRank_def ex_unranked_def blank_def applyWithChunking_def CHUNKING_THRESHOLD_def
      math_max_def max2_def MIN_VALUE_def of_rank_def)

section \<open>lib/util.js: intersectRect\<close>

text \<open>
  The rectangle and the point carry finite coordinates. The coordinates of the returned
  point are numbers: a division by zero gives an infinity or NaN, it does not raise.
\<close>

datatype error = Error string | TypeError

datatype rect = Rect (rect_x: rat) (rect_y: rat) (rect_width: rat) (rect_height: rat)

datatype point = Point (point_x: rat) (point_y: rat)




section \<open>lib/util.js: normalizeRanks\<close>


section \<open>lib/rank/util.js: longestPath and slack\<close>

text \<open>
  \<open>dfs\<close> is recursive over the graph; the model bounds the depth of the recursion by a
  fuel argument and returns \<open>None\<close> when the fuel runs out. The state threaded through the
  calls is the graph (the labels that \<open>label.rank = rank\<close> mutates) and the \<open>visited\<close>
  object. \<open>dfs_edges\<close> is \<open>g.outEdges(v).map(e => dfs(e.w) - g.edge(e).minlen)\<close>; the
  branch \<open>e == null\<close> of the source is dead, \<open>outEdges\<close> returns edge objects.
  A visited node returns its current \<open>label.rank\<close>, which is \<open>undefined\<close> when the node is
  still in progress and had no rank before.
\<close>

type_synonym dfs_state = "Graph \<times> id set"





subsection \<open>Correctness of longestPath on acyclic graphs\<close>


definition same_graph :: "Graph \<Rightarrow> Graph \<Rightarrow> bool" where
  "same_graph g g' =
     (nodes g' = nodes g \<and> edges g' = edges g \<and> edge g' = edge g \<and> parent g' = parent g
      \<and> graph g' = graph g)"





definition extends :: "(id \<Rightarrow> nat) \<Rightarrow> nat \<Rightarrow> dfs_state \<Rightarrow> dfs_state \<Rightarrow> bool" where
  "extends h b s s' =
     (same_graph (fst s) (fst s') \<and> snd s \<subseteq> snd s'
      \<and> (\<forall>u\<in>snd s. node (fst s') u = node (fst s) u)
      \<and> (\<forall>u\<in>snd s' - snd s. h u < b))"



lemma same_graph_refl [simp]: "same_graph g g"
  by (simp add: same_graph_def)




lemma extends_refl [simp]: "extends h b s s"
  by (simp add: extends_def)

























section \<open>lib/util.js: removeEmptyRanks\<close>

text \<open>
  \<open>layers\<close> is a sparse array: \<open>None\<close> is a hole. A key \<open>rank\<close> of \<open>layers[rank]\<close>
  that is a non-negative integer is an array index; any other key (NaN, a negative number,
  a fraction, an infinity) names a plain property, which \<open>Array.from(layers)\<close> does not
  see, so the model drops the node. \<open>Math.min\<close> converts a missing rank to NaN.
\<close>

definition to_index :: "number \<Rightarrow> nat option" where
  "to_index n =
     (case n of
        Num q \<Rightarrow> if of_int \<lfloor>q\<rfloor> = q \<and> 0 \<le> q then Some (nat \<lfloor>q\<rfloor>) else None
      | _ \<Rightarrow> None)"

text \<open>\<open>if (!layers[rank]) { layers[rank] = []; } layers[rank].push(v)\<close>\<close>

definition push_layer :: "id list option list \<Rightarrow> nat \<Rightarrow> id \<Rightarrow> id list option list" where
  "push_layer layers rank v =
     (let layers' = layers @ replicate (Suc rank - length layers) None
      in layers'[rank := Some ((case layers' ! rank of None \<Rightarrow> [] | Some vs \<Rightarrow> vs) @ [v])])"





lemma to_index_of_rank [simp]: "to_index (of_rank r) = (if 0 \<le> r then Some (nat r) else None)"
  by (simp add: to_index_def of_rank_def)

lemma add_zero [simp]: "add r (of_rank 0) = r"
  by (cases r) (simp_all add: of_rank_def tiny_def)

subsection \<open>What removeEmptyRanks does to each rank\<close>

text \<open>
  \<open>content\<close> reads the sparse array, \<open>build\<close> is the first loop once every key is known
  to be an index, \<open>delta_at\<close> is the value of \<open>delta\<close> when the second loop reaches a
  given index.
\<close>

definition the_layer :: "id list option \<Rightarrow> id list" where
  "the_layer vs = (case vs of None \<Rightarrow> [] | Some ws \<Rightarrow> ws)"

lemma the_layer_simps [simp]: "the_layer None = []" "the_layer (Some ws) = ws"
  by (simp_all add: the_layer_def)




definition build :: "(id \<Rightarrow> nat) \<Rightarrow> id list option list \<Rightarrow> id list \<Rightarrow> id list option list" where
  "build offs layers vs = foldl (\<lambda>layers v. push_layer layers (offs v) v) layers vs"

lemma build_Nil [simp]: "build offs layers [] = layers"
  by (simp add: build_def)












lemma concat_replicate_None [simp]: "concat (map the_layer (replicate n None)) = []"
  by (induction n) (simp_all add: the_layer_def)























section \<open>lib/util.js: range and buildLayerMatrix\<close>

text \<open>
  \<open>range(start, limit, step)\<close> runs \<open>for (i = start; endCon(i); i += step)\<close> with
  \<open>endCon(i) = i < limit\<close>, or \<open>limit < i\<close> when \<open>step < 0\<close>. The two loops on finite
  numbers terminate because the step has the right sign.
\<close>

function range_up :: "rat \<Rightarrow> rat \<Rightarrow> rat \<Rightarrow> rat list" where
  "range_up i limit step =
     (if 0 < step \<and> i < limit then i # range_up (i + step) limit step else [])"
  by pat_completeness auto
termination
proof (relation "measure (\<lambda>(i, limit, step). nat \<lceil>(limit - i) / step\<rceil>)")
  show "wf (measure (\<lambda>(i, limit, step). nat \<lceil>(limit - i) / step\<rceil>))"
    by simp
next
  fix i limit step :: rat
  assume a: "0 < step \<and> i < limit"
  then have pos: "0 < (limit - i) / step" by (intro divide_pos_pos) simp_all
  have "(limit - (i + step)) / step = (limit - i) / step - 1"
    using a by (simp add: field_simps)
  then have "\<lceil>(limit - (i + step)) / step\<rceil> = \<lceil>(limit - i) / step\<rceil> - 1"
    by simp
  moreover have "0 < \<lceil>(limit - i) / step\<rceil>" using pos by simp
  ultimately show "((i + step, limit, step), (i, limit, step))
          \<in> measure (\<lambda>(i, limit, step). nat \<lceil>(limit - i) / step\<rceil>)"
    by simp
qed

function range_down :: "rat \<Rightarrow> rat \<Rightarrow> rat \<Rightarrow> rat list" where
  "range_down i limit step =
     (if step < 0 \<and> limit < i then i # range_down (i + step) limit step else [])"
  by pat_completeness auto
termination
proof (relation "measure (\<lambda>(i, limit, step). nat \<lceil>(i - limit) / (- step)\<rceil>)")
  show "wf (measure (\<lambda>(i, limit, step). nat \<lceil>(i - limit) / (- step)\<rceil>))"
    by simp
next
  fix i limit step :: rat
  assume a: "step < 0 \<and> limit < i"
  then have pos: "0 < (i - limit) / (- step)" by (intro divide_pos_pos) simp_all
  have "(i + step - limit) / (- step) = (i - limit) / (- step) - 1"
    using a by (simp add: field_simps)
  then have "\<lceil>(i + step - limit) / (- step)\<rceil> = \<lceil>(i - limit) / (- step)\<rceil> - 1"
    by simp
  moreover have "0 < \<lceil>(i - limit) / (- step)\<rceil>" using pos by simp
  ultimately show "((i + step, limit, step), (i, limit, step))
          \<in> measure (\<lambda>(i, limit, step). nat \<lceil>(i - limit) / (- step)\<rceil>)"
    by simp
qed

declare range_up.simps [simp del] range_down.simps [simp del]

text \<open>
  \<open>range_seq start limit step\<close> is \<open>range(start, limit, step)\<close> for a finite \<open>step\<close>;
  \<open>None\<close> says that the loop never ends (a zero step below the limit, or an infinite bound
  in the direction of travel), \<open>Some []\<close> that the first test already fails.
  The one-argument call \<open>range(n)\<close> is \<open>range_seq (Num 0) n 1\<close>.
\<close>

definition range_seq :: "number \<Rightarrow> number \<Rightarrow> rat \<Rightarrow> number list option" where
  "range_seq start limit step =
     (if step < 0
      then (if \<not> lt limit start then Some []
            else (case (start, limit) of
                    (Num s, Num l) \<Rightarrow> Some (map Num (range_down s l step))
                  | _ \<Rightarrow> None))
      else (if \<not> lt start limit then Some []
            else if step = 0 then None
            else (case (start, limit) of
                    (Num s, Num l) \<Rightarrow> Some (map Num (range_up s l step))
                  | _ \<Rightarrow> None)))"

type_synonym layering = "id option list list"

text \<open>
  \<open>layering[rank][node.order] = v\<close>: the row must exist, else the assignment raises a
  TypeError; an order that is \<open>undefined\<close> names a property, not an element; an order
  beyond the end of the row extends the row with holes.
\<close>

definition put_at :: "id option list \<Rightarrow> nat option \<Rightarrow> id \<Rightarrow> id option list" where
  "put_at row ord v =
     (case ord of
        None \<Rightarrow> row
      | Some i \<Rightarrow> (row @ replicate (Suc i - length row) None)[i := Some v])"

definition matrix_step :: "Graph \<Rightarrow> error + layering \<Rightarrow> id \<Rightarrow> error + layering" where
  "matrix_step g acc v =
     (case acc of
        Inl e \<Rightarrow> Inl e
      | Inr layering \<Rightarrow>
          (case node_rank (node g v) of
             None \<Rightarrow> Inr layering
           | Some rank \<Rightarrow>
               (case to_index rank of
                  None \<Rightarrow> Inl TypeError
                | Some r \<Rightarrow>
                    if r < length layering
                    then Inr (layering[r := put_at (layering ! r) (node_order (node g v)) v])
                    else Inl TypeError)))"

definition buildLayerMatrix :: "Graph \<Rightarrow> (error + layering) option" where
  "buildLayerMatrix g =
     (case range_seq (Num 0) (add (maxRank g) (Num 1)) 1 of
        None \<Rightarrow> None
      | Some rows \<Rightarrow> Some (foldl (matrix_step g) (Inr (map (\<lambda>_. []) rows)) (nodes g)))"

section \<open>lib/order/build-layer-graph.js\<close>

text \<open>
  A layer graph is a compound graphlib graph. Its default node label is \<open>g.node(v)\<close>:
  a node created without a label shares the label object of the main graph (it has no
  entry in \<open>lg_own\<close>), and a write through \<open>lg.node(v)\<close> then reaches the main graph.
  A node given a label of its own (\<open>borderLeft\<close>, \<open>borderRight\<close>, later \<open>order\<close>) has an
  entry in \<open>lg_own\<close>. \<open>lg_rank\<close> and \<open>lg_relationship\<close> record the arguments the layer
  graph was built with. The main graph's parent relation is a forest, as graphlib keeps it,
  so the cycle check of \<open>setParent\<close> never fires and is left out.
\<close>

datatype relationship = InEdges | OutEdges

record own_label =
  own_borderLeft :: "id option"
  own_borderRight :: "id option"
  own_order :: "nat option"

record LayerGraph =
  lg_rank :: number
  lg_relationship :: relationship
  lg_root :: id
  lg_nodes :: "id list"
  lg_own :: "id \<Rightarrow> own_label option"
  lg_parent :: "id \<Rightarrow> id option"
  lg_edges :: "((id \<times> id) \<times> rat) list"

text \<open>\<open>result.setNode(v)\<close>, \<open>result.setNode(v, label)\<close>, \<open>result.setParent(v, p)\<close>,
  \<open>result.edge(u, v)\<close> and \<open>result.setEdge(u, v, {weight: w})\<close>.\<close>

definition lg_setNode :: "LayerGraph \<Rightarrow> id \<Rightarrow> LayerGraph" where
  "lg_setNode lg v = (if v \<in> set (lg_nodes lg) then lg else lg\<lparr> lg_nodes := lg_nodes lg @ [v] \<rparr>)"

definition lg_setNodeLabel :: "LayerGraph \<Rightarrow> id \<Rightarrow> own_label \<Rightarrow> LayerGraph" where
  "lg_setNodeLabel lg v lbl = (lg_setNode lg v)\<lparr> lg_own := (lg_own lg)(v := Some lbl) \<rparr>"

definition lg_setParent :: "LayerGraph \<Rightarrow> id \<Rightarrow> id \<Rightarrow> LayerGraph" where
  "lg_setParent lg v p =
     (let lg' = lg_setNode (lg_setNode lg p) v
      in lg'\<lparr> lg_parent := (lg_parent lg')(v := Some p) \<rparr>)"

definition lg_edge :: "LayerGraph \<Rightarrow> id \<Rightarrow> id \<Rightarrow> rat option" where
  "lg_edge lg u v = map_of (lg_edges lg) (u, v)"

definition lg_setEdge :: "LayerGraph \<Rightarrow> id \<Rightarrow> id \<Rightarrow> rat \<Rightarrow> LayerGraph" where
  "lg_setEdge lg u v weight =
     (let lg' = lg_setNode (lg_setNode lg u) v
      in lg'\<lparr> lg_edges :=
               (if map_of (lg_edges lg') (u, v) = None then lg_edges lg' @ [((u, v), weight)]
                else map (\<lambda>(k, x). if k = (u, v) then (k, weight) else (k, x)) (lg_edges lg')) \<rparr>)"

text \<open>\<open>while (g.hasNode((v = util.uniqueId("_root"))));\<close>\<close>

definition createRootNode :: "Graph \<Rightarrow> nat \<Rightarrow> id \<times> nat" where
  "createRootNode g idCounter =
     (case uniqueId ''_root'' idCounter of
        (v, idCounter') \<Rightarrow> while_hasNode g ''_root'' v idCounter')"

text \<open>The comparisons \<open>a === b\<close> and \<open>a <= b\<close> on numbers; both are false on NaN.\<close>

definition strict_eq :: "number \<Rightarrow> number \<Rightarrow> bool" where
  "strict_eq a b = (a = b \<and> a \<noteq> NaN)"

definition le :: "number \<Rightarrow> number \<Rightarrow> bool" where
  "le a b = (lt a b \<or> strict_eq a b)"

definition rel_edges :: "Graph \<Rightarrow> relationship \<Rightarrow> id \<Rightarrow> edge_obj list" where
  "rel_edges g relationship v =
     (case relationship of InEdges \<Rightarrow> inEdges g v | OutEdges \<Rightarrow> outEdges g v)"

text \<open>The body of \<open>g[relationship](v).forEach(e => ...)\<close>.\<close>

definition add_layer_edge :: "Graph \<Rightarrow> id \<Rightarrow> LayerGraph \<Rightarrow> edge_obj \<Rightarrow> LayerGraph" where
  "add_layer_edge g v result e =
     (let u = (if e_v e = v then e_w e else e_v e);
          weight = (case lg_edge result u v of None \<Rightarrow> 0 | Some x \<Rightarrow> x)
      in lg_setEdge result u v (edge_weight (edge g e) + weight))"

text \<open>
  The body of \<open>nodesWithRank.forEach(v => ...)\<close>; \<open>rt\<close> is the variable \<open>root\<close> of the
  source. \<open>parent || root\<close> takes the root for a missing parent and for the empty string.
  \<open>buildLayerGraphs\<close> always passes a list for \<open>nodesWithRank\<close>, so the default
  \<open>g.nodes()\<close> of a missing argument is never taken.
\<close>

definition add_layer_node ::
  "Graph \<Rightarrow> number \<Rightarrow> relationship \<Rightarrow> id \<Rightarrow> LayerGraph \<Rightarrow> id \<Rightarrow> LayerGraph" where
  "add_layer_node g rank relationship rt result v =
     (let lbl = node g v; p = parent g v
      in if strict_eq (to_number (node_rank lbl)) rank
            \<or> (le (to_number (map_option of_rank (node_minRank lbl))) rank
                \<and> le rank (to_number (map_option of_rank (node_maxRank lbl))))
         then (let r1 = lg_setNode result v;
                   r2 = lg_setParent r1 v (case p of None \<Rightarrow> rt
                                           | Some q \<Rightarrow> if q = [] then rt else q);
                   r3 = foldl (add_layer_edge g v) r2 (rel_edges g relationship v)
               in if node_minRank lbl \<noteq> None
                  then lg_setNodeLabel r3 v
                         \<lparr> own_borderLeft = node_borderLeft lbl rank,
                           own_borderRight = node_borderRight lbl rank,
                           own_order = None \<rparr>
                  else r3)
         else result)"

definition buildLayerGraph ::
  "Graph \<Rightarrow> number \<Rightarrow> relationship \<Rightarrow> id list \<Rightarrow> nat \<Rightarrow> LayerGraph \<times> nat" where
  "buildLayerGraph g rank relationship nodesWithRank idCounter =
     (case createRootNode g idCounter of
        (rt, idCounter') \<Rightarrow>
          (foldl (add_layer_node g rank relationship rt)
             \<lparr> lg_rank = rank, lg_relationship = relationship, lg_root = rt, lg_nodes = [],
               lg_own = (\<lambda>_. None), lg_parent = (\<lambda>_. None), lg_edges = [] \<rparr>
             nodesWithRank,
           idCounter'))"

section \<open>lib/order/index.js\<close>

subsection \<open>buildLayerGraphs\<close>

text \<open>
  \<open>nodesByRank\<close> is a \<open>Map\<close> from rank to the nodes of that rank, in the order of
  \<open>g.nodes()\<close>; a missing key reads as the empty list (\<open>nodesByRank.get(rank) || []\<close>).
\<close>

definition addNodeToRank :: "(number \<Rightarrow> id list) \<Rightarrow> number \<Rightarrow> id \<Rightarrow> (number \<Rightarrow> id list)" where
  "addNodeToRank nodesByRank rank v = nodesByRank(rank := nodesByRank rank @ [v])"

definition index_node :: "Graph \<Rightarrow> (number \<Rightarrow> id list) \<Rightarrow> id \<Rightarrow> (number \<Rightarrow> id list)" where
  "index_node g nodesByRank v =
     (let lbl = node g v;
          m1 = (case node_rank lbl of None \<Rightarrow> nodesByRank
                | Some r \<Rightarrow> addNodeToRank nodesByRank r v)
      in case (node_minRank lbl, node_maxRank lbl) of
           (Some lo, Some hi) \<Rightarrow>
             foldl (\<lambda>m r. if node_rank lbl \<noteq> Some (of_rank r) then addNodeToRank m (of_rank r) v
                           else m) m1 [lo..hi]
         | _ \<Rightarrow> m1)"

fun map_buildLayerGraph ::
  "Graph \<Rightarrow> relationship \<Rightarrow> (number \<Rightarrow> id list) \<Rightarrow> number list \<Rightarrow> nat \<Rightarrow> LayerGraph list \<times> nat" where
  "map_buildLayerGraph g relationship nodesByRank [] idCounter = ([], idCounter)"
| "map_buildLayerGraph g relationship nodesByRank (rank # ranks) idCounter =
     (case buildLayerGraph g rank relationship (nodesByRank rank) idCounter of
        (lg, idCounter') \<Rightarrow>
          (case map_buildLayerGraph g relationship nodesByRank ranks idCounter' of
             (lgs, idCounter'') \<Rightarrow> (lg # lgs, idCounter'')))"

definition buildLayerGraphs ::
  "Graph \<Rightarrow> number list \<Rightarrow> relationship \<Rightarrow> nat \<Rightarrow> LayerGraph list \<times> nat" where
  "buildLayerGraphs g ranks relationship idCounter =
     (let nodesByRank = foldl (index_node g) (\<lambda>_. []) (nodes g)
      in map_buildLayerGraph g relationship nodesByRank ranks idCounter)"

subsection \<open>The collaborators of order\<close>

text \<open>
  \<open>initOrder\<close>, \<open>sortSubgraph\<close>, \<open>addSubgraphConstraints\<close> and \<open>crossCount\<close> live in
  other modules; \<open>order\<close> takes them as parameters. They are deterministic functions of
  what the source hands them: \<open>sortSubgraph\<close> sees the layer graph and, through the shared
  labels, the current main graph, and returns \<open>sorted.vs\<close>; \<open>addSubgraphConstraints\<close>
  returns the updated constraint graph \<open>cg\<close>; \<open>crossCount\<close> returns a natural number;
  \<open>new_cg\<close> is the empty constraint graph \<open>new Graph()\<close>. None of them writes to the
  main graph.
\<close>

record 'cg collaborators =
  initOrder :: "Graph \<Rightarrow> id list list"
  sortSubgraph :: "LayerGraph \<Rightarrow> Graph \<Rightarrow> id \<Rightarrow> 'cg \<Rightarrow> bool \<Rightarrow> id list"
  addSubgraphConstraints :: "LayerGraph \<Rightarrow> Graph \<Rightarrow> 'cg \<Rightarrow> id list \<Rightarrow> 'cg"
  crossCount :: "Graph \<Rightarrow> layering \<Rightarrow> nat"
  new_cg :: 'cg

subsection \<open>assignOrder\<close>

text \<open>
  \<open>g.node(v).order = i\<close> raises a TypeError when \<open>v\<close> is not a node of \<open>g\<close>;
  \<open>forEach\<close> skips the holes of a row but counts their index.
\<close>

definition set_order :: "Graph \<Rightarrow> id \<Rightarrow> nat \<Rightarrow> Graph" where
  "set_order g v i = g\<lparr> node := (node g)(v := (node g v)\<lparr> node_order := Some i \<rparr>) \<rparr>"

fun assign_layer :: "Graph \<Rightarrow> id option list \<Rightarrow> nat \<Rightarrow> error + Graph" where
  "assign_layer g [] i = Inr g"
| "assign_layer g (None # layer) i = assign_layer g layer (Suc i)"
| "assign_layer g (Some v # layer) i =
     (if hasNode g v then assign_layer (set_order g v i) layer (Suc i) else Inl TypeError)"

fun assignOrder :: "Graph \<Rightarrow> layering \<Rightarrow> error + Graph" where
  "assignOrder g [] = Inr g"
| "assignOrder g (layer # layering) =
     (case assign_layer g layer 0 of Inl e \<Rightarrow> Inl e | Inr g' \<Rightarrow> assignOrder g' layering)"

subsection \<open>sweepLayerGraphs\<close>

text \<open>
  \<open>lg.node(v).order = i\<close>: a node with a label of its own is written in the layer graph;
  a node with the default label is written in the main graph; a node that the layer graph
  does not have, or whose default label is \<open>undefined\<close> because the main graph does not
  have it (the root), raises a TypeError.
\<close>

definition set_lg_order :: "LayerGraph \<times> Graph \<Rightarrow> id \<Rightarrow> nat \<Rightarrow> error + LayerGraph \<times> Graph" where
  "set_lg_order s v i =
     (case s of (lg, g) \<Rightarrow>
        if v \<notin> set (lg_nodes lg) then Inl TypeError
        else (case lg_own lg v of
                Some own \<Rightarrow> Inr (lg\<lparr> lg_own := (lg_own lg)(v := Some (own\<lparr> own_order := Some i \<rparr>)) \<rparr>, g)
              | None \<Rightarrow> if hasNode g v then Inr (lg, set_order g v i) else Inl TypeError))"

fun assign_sorted :: "LayerGraph \<times> Graph \<Rightarrow> id list \<Rightarrow> nat \<Rightarrow> error + LayerGraph \<times> Graph" where
  "assign_sorted s [] i = Inr s"
| "assign_sorted s (v # vs) i =
     (case set_lg_order s v i of Inl e \<Rightarrow> Inl e | Inr s' \<Rightarrow> assign_sorted s' vs (Suc i))"

text \<open>
  \<open>layerGraphs.forEach(lg => ...)\<close> with the constraint graph \<open>cg\<close> and the main graph
  as state; the layer graphs are mutated in place, so the updated list is returned.
\<close>

fun sweep_each ::
  "'cg collaborators \<Rightarrow> bool \<Rightarrow> LayerGraph list \<Rightarrow> 'cg \<Rightarrow> Graph \<Rightarrow> error + LayerGraph list \<times> Graph" where
  "sweep_each c biasRight [] cg g = Inr ([], g)"
| "sweep_each c biasRight (lg # lgs) cg g =
     (let rt = lg_root lg;
          sorted = sortSubgraph c lg g rt cg biasRight
      in case assign_sorted (lg, g) sorted 0 of
           Inl e \<Rightarrow> Inl e
         | Inr (lg', g') \<Rightarrow>
             (let cg' = addSubgraphConstraints c lg' g' cg sorted
              in case sweep_each c biasRight lgs cg' g' of
                   Inl e \<Rightarrow> Inl e
                 | Inr (lgs', g'') \<Rightarrow> Inr (lg' # lgs', g'')))"

definition sweepLayerGraphs ::
  "'cg collaborators \<Rightarrow> LayerGraph list \<Rightarrow> bool \<Rightarrow> Graph \<Rightarrow> error + LayerGraph list \<times> Graph" where
  "sweepLayerGraphs c layerGraphs biasRight g = sweep_each c biasRight layerGraphs (new_cg c) g"

subsection \<open>The iteration loop\<close>

text \<open>
  The loop variables are \<open>i\<close>, \<open>lastBest\<close>, \<open>bestCC\<close> (\<open>None\<close> is \<open>+Infinity\<close>) and
  \<open>best\<close> (\<open>None\<close> is \<open>undefined\<close>); the graph, the two families of layer graphs and the
  id counter are the mutable state around them. \<open>ls_log\<close> is the history of the loop: one
  entry for each completed iteration, with the family that was swept (rank and relationship
  of each layer graph), the \<open>biasRight\<close> flag, the graph after the sweep, the layering and
  crossing count obtained from it and whether \<open>cc < bestCC\<close> held.
\<close>

record sweep_entry =
  se_index :: nat
  se_family :: "(number \<times> relationship) list"
  se_biasRight :: bool
  se_g :: Graph
  se_layering :: layering
  se_cc :: nat
  se_improved :: bool

record loop_state =
  ls_i :: nat
  ls_lastBest :: nat
  ls_bestCC :: "nat option"
  ls_best :: "layering option"
  ls_g :: Graph
  ls_down :: "LayerGraph list"
  ls_up :: "LayerGraph list"
  ls_idCounter :: nat
  ls_log :: "sweep_entry list"

definition family_of :: "LayerGraph list \<Rightarrow> (number \<times> relationship) list" where
  "family_of lgs = map (\<lambda>lg. (lg_rank lg, lg_relationship lg)) lgs"

text \<open>One pass through the loop body, followed by \<open>++i, ++lastBest\<close>.\<close>

definition order_iteration :: "'cg collaborators \<Rightarrow> loop_state \<Rightarrow> (error + loop_state) option" where
  "order_iteration c s =
     (let i = ls_i s;
          down_turn = (i mod 2 \<noteq> 0);
          biasRight = (i mod 4 \<ge> 2)
      in case sweepLayerGraphs c (if down_turn then ls_down s else ls_up s) biasRight (ls_g s) of
           Inl e \<Rightarrow> Some (Inl e)
         | Inr (lgs, g) \<Rightarrow>
             (case buildLayerMatrix g of
                None \<Rightarrow> None
              | Some (Inl e) \<Rightarrow> Some (Inl e)
              | Some (Inr layering) \<Rightarrow>
                  (let cc = crossCount c g layering;
                       improved = (case ls_bestCC s of None \<Rightarrow> True | Some best \<Rightarrow> cc < best)
                   in Some (Inr (s\<lparr> ls_i := i + 1,
                                     ls_lastBest := (if improved then 0 else ls_lastBest s) + 1,
                                     ls_bestCC := (if improved then Some cc else ls_bestCC s),
                                     ls_best := (if improved then Some layering else ls_best s),
                                     ls_g := g,
                                     ls_down := (if down_turn then lgs else ls_down s),
                                     ls_up := (if down_turn then ls_up s else lgs),
                                     ls_log := ls_log s @
                                       [\<lparr> se_index = i,
                                          se_family = family_of (if down_turn then ls_down s else ls_up s),
                                          se_biasRight = biasRight,
                                          se_g = g,
                                          se_layering = layering,
                                          se_cc = cc,
                                          se_improved = improved \<rparr>] \<rparr>)))))"

text \<open>
  Each pass either lowers \<open>bestCC\<close> (from \<open>+Infinity\<close> to a natural number, or to a smaller
  natural number) or raises \<open>lastBest\<close> towards 4, which is why the loop ends.
\<close>

lemma order_iteration_decreases:
  assumes "order_iteration c s = Some (Inr s')" and "ls_lastBest s < 4"
  shows "(s', s) \<in> measures [\<lambda>s. case ls_bestCC s of None \<Rightarrow> 1 | Some b \<Rightarrow> 0,
                              \<lambda>s. case ls_bestCC s of None \<Rightarrow> 0 | Some b \<Rightarrow> b,
                              \<lambda>s. 4 - ls_lastBest s]"
  using assms
  by (auto simp: order_iteration_def Let_def split: sum.splits option.splits if_splits)

function order_loop :: "'cg collaborators \<Rightarrow> loop_state \<Rightarrow> (error + loop_state) option" where
  "order_loop c s =
     (if ls_lastBest s < 4
      then (case order_iteration c s of
              None \<Rightarrow> None
            | Some (Inl e) \<Rightarrow> Some (Inl e)
            | Some (Inr s') \<Rightarrow> order_loop c s')
      else Some (Inr s))"
  by pat_completeness auto
termination
proof (relation "inv_image (measures [\<lambda>s. case ls_bestCC s of None \<Rightarrow> 1 | Some b \<Rightarrow> 0,
                              \<lambda>s. case ls_bestCC s of None \<Rightarrow> 0 | Some b \<Rightarrow> b,
                              \<lambda>s. 4 - ls_lastBest s]) snd")
  show "wf (inv_image (measures [\<lambda>s. case ls_bestCC s of None \<Rightarrow> 1 | Some b \<Rightarrow> 0,
                              \<lambda>s. case ls_bestCC s of None \<Rightarrow> 0 | Some b \<Rightarrow> b,
                              \<lambda>s. 4 - ls_lastBest s]) snd)"
    by simp
next
  fix c :: "'cg collaborators" and s x s'
  assume "ls_lastBest s < 4" "order_iteration c s = Some x" "x = Inr s'"
  then show "((c, s'), (c, s))
      \<in> inv_image (measures [\<lambda>s. case ls_bestCC s of None \<Rightarrow> 1 | Some b \<Rightarrow> 0,
                              \<lambda>s. case ls_bestCC s of None \<Rightarrow> 0 | Some b \<Rightarrow> b,
                              \<lambda>s. 4 - ls_lastBest s]) snd"
    using order_iteration_decreases [of c s s'] by simp
qed

declare order_loop.simps [simp del]

subsection \<open>order\<close>

text \<open>
  \<open>opts\<close> may be \<open>undefined\<close>. A \<open>customOrder\<close> strategy is a function of the graph (the
  callback to \<open>order\<close> that it receives is part of it); \<open>order\<close> then does nothing else.
  The result is the final state of the loop variables, with the graph as committed by the
  last \<open>assignOrder\<close>; \<open>assignOrder(g, best)\<close> with \<open>best\<close> still \<open>undefined\<close> raises a
  TypeError. \<open>None\<close> says that \<open>order\<close> does not return (a \<open>range\<close> that never ends).
\<close>

record opts =
  customOrder :: "(Graph \<Rightarrow> Graph) option"
  disableOptimalOrderHeuristic :: bool

definition start_state :: "Graph \<Rightarrow> LayerGraph list \<Rightarrow> LayerGraph list \<Rightarrow> nat \<Rightarrow> loop_state" where
  "start_state g downLayerGraphs upLayerGraphs idCounter =
     \<lparr> ls_i = 0, ls_lastBest = 0, ls_bestCC = None, ls_best = None, ls_g = g,
       ls_down = downLayerGraphs, ls_up = upLayerGraphs, ls_idCounter = idCounter,
       ls_log = [] \<rparr>"

definition custom_strategy :: "opts option \<Rightarrow> (Graph \<Rightarrow> Graph) option" where
  "custom_strategy options = (case options of None \<Rightarrow> None | Some o' \<Rightarrow> customOrder o')"

definition heuristic_disabled :: "opts option \<Rightarrow> bool" where
  "heuristic_disabled options =
     (case options of None \<Rightarrow> False | Some o' \<Rightarrow> disableOptimalOrderHeuristic o')"

definition order ::
  "'cg collaborators \<Rightarrow> opts option \<Rightarrow> Graph \<Rightarrow> nat \<Rightarrow> (error + loop_state) option" where
  "order c options g idCounter =
     (case custom_strategy options of
        Some strategy \<Rightarrow> Some (Inr (start_state (strategy g) [] [] idCounter))
      | None \<Rightarrow>
          (let maxR = maxRank g
           in case range_seq (Num 1) (add maxR (Num 1)) 1 of
                None \<Rightarrow> None
              | Some downRanks \<Rightarrow>
                  (case buildLayerGraphs g downRanks InEdges idCounter of
                     (downLayerGraphs, idCounter1) \<Rightarrow>
                       (case range_seq (sub maxR (Num 1)) (Num (- 1)) (- 1) of
                          None \<Rightarrow> None
                        | Some upRanks \<Rightarrow>
                            (case buildLayerGraphs g upRanks OutEdges idCounter1 of
                               (upLayerGraphs, idCounter2) \<Rightarrow>
                                 (case assignOrder g (map (map Some) (initOrder c g)) of
                                    Inl e \<Rightarrow> Some (Inl e)
                                  | Inr g1 \<Rightarrow>
                                      if heuristic_disabled options
                                      then Some (Inr (start_state g1 downLayerGraphs upLayerGraphs idCounter2))
                                      else (case order_loop c (start_state g1 downLayerGraphs upLayerGraphs idCounter2) of
                                              None \<Rightarrow> None
                                            | Some (Inl e) \<Rightarrow> Some (Inl e)
                                            | Some (Inr s) \<Rightarrow>
                                                (case ls_best s of
                                                   None \<Rightarrow> Some (Inl TypeError)
                                                 | Some best \<Rightarrow>
                                                     (case assignOrder (ls_g s) best of
                                                        Inl e \<Rightarrow> Some (Inl e)
                                                      | Inr g' \<Rightarrow> Some (Inr (s\<lparr> ls_g := g' \<rparr>)))))))))))"

section \<open>Properties of order\<close>

subsection \<open>Only the order field of node labels is written\<close>

definition erase_order :: "node_label \<Rightarrow> node_label" where
  "erase_order lbl = lbl\<lparr> node_order := None \<rparr>"

definition same_but_order :: "Graph \<Rightarrow> Graph \<Rightarrow> bool" where
  "same_but_order g g' =
     (nodes g' = nodes g \<and> parent g' = parent g \<and> edges g' = edges g \<and> edge g' = edge g
      \<and> graph g' = graph g \<and> (\<forall>v. erase_order (node g' v) = erase_order (node g v)))"

lemma same_but_order_refl [simp]: "same_but_order g g"
  by (simp add: same_but_order_def)

lemma same_but_order_trans:
  "same_but_order g g' \<Longrightarrow> same_but_order g' g'' \<Longrightarrow> same_but_order g g''"
  by (simp add: same_but_order_def)

lemma same_but_order_set_order: "same_but_order g (set_order g v i)"
  by (simp add: same_but_order_def set_order_def erase_order_def)

lemma same_but_order_hasNode: "same_but_order g g' \<Longrightarrow> hasNode g' v = hasNode g v"
  by (simp add: same_but_order_def hasNode_def)

lemma assign_layer_frame: "assign_layer g layer i = Inr g' \<Longrightarrow> same_but_order g g'"
proof (induction g layer i rule: assign_layer.induct)
  case (1 g i)
  then show ?case by simp
next
  case (2 g layer i)
  then show ?case by simp
next
  case (3 g v layer i)
  then show ?case
    by (auto split: if_splits intro: same_but_order_trans [OF same_but_order_set_order])
qed

lemma assignOrder_frame: "assignOrder g layering = Inr g' \<Longrightarrow> same_but_order g g'"
proof (induction layering arbitrary: g)
  case Nil
  then show ?case by simp
next
  case (Cons layer layering)
  then show ?case
    by (auto split: sum.splits dest!: assign_layer_frame intro: same_but_order_trans)
qed

lemma set_lg_order_frame: "set_lg_order (lg, g) v i = Inr (lg', g') \<Longrightarrow> same_but_order g g'"
  by (auto simp: set_lg_order_def same_but_order_set_order split: if_splits option.splits)

lemma assign_sorted_frame: "assign_sorted (lg, g) vs i = Inr (lg', g') \<Longrightarrow> same_but_order g g'"
proof (induction vs arbitrary: lg g i)
  case Nil
  then show ?case by simp
next
  case (Cons v vs)
  from Cons.prems obtain lg1 g1 where a: "set_lg_order (lg, g) v i = Inr (lg1, g1)"
    and b: "assign_sorted (lg1, g1) vs (Suc i) = Inr (lg', g')"
    by (auto split: sum.splits)
  show ?case using set_lg_order_frame [OF a] Cons.IH [OF b] by (rule same_but_order_trans)
qed

lemma sweep_each_frame:
  "sweep_each c biasRight lgs cg g = Inr (lgs', g') \<Longrightarrow> same_but_order g g'"
proof (induction lgs arbitrary: cg g lgs')
  case Nil
  then show ?case by simp
next
  case (Cons lg lgs)
  from Cons.prems obtain lg1 g1 lgs1 where
    a: "assign_sorted (lg, g) (sortSubgraph c lg g (lg_root lg) cg biasRight) 0 = Inr (lg1, g1)"
    and b: "sweep_each c biasRight lgs
              (addSubgraphConstraints c lg1 g1 cg (sortSubgraph c lg g (lg_root lg) cg biasRight)) g1
              = Inr (lgs1, g')"
    by (auto simp: Let_def split: sum.splits prod.splits)
  show ?case using assign_sorted_frame [OF a] Cons.IH [OF b] by (rule same_but_order_trans)
qed

lemma order_iteration_frame:
  "order_iteration c s = Some (Inr s') \<Longrightarrow> same_but_order (ls_g s) (ls_g s')"
  by (auto simp: order_iteration_def Let_def sweepLayerGraphs_def
      split: sum.splits option.splits prod.splits dest!: sweep_each_frame)

lemma order_loop_frame:
  "order_loop c s = Some (Inr s') \<Longrightarrow> same_but_order (ls_g s) (ls_g s')"
proof (induction c s rule: order_loop.induct)
  case (1 c s)
  show ?case
  proof (cases "ls_lastBest s < 4")
    case True
    with "1.prems" obtain s1 where a: "order_iteration c s = Some (Inr s1)"
      and b: "order_loop c s1 = Some (Inr s')"
      by (subst (asm) order_loop.simps) (auto split: option.splits sum.splits)
    show ?thesis
      using order_iteration_frame [OF a] "1.IH" [OF True a refl b]
      by (rule same_but_order_trans)
  next
    case False
    with "1.prems" show ?thesis by (subst (asm) order_loop.simps) simp
  qed
qed

text \<open>The default path of \<open>order\<close>, taken apart.\<close>

lemma order_unfold:
  assumes "custom_strategy options = None" and "order c options g idCounter = Some (Inr s)"
  shows "\<exists>downRanks upRanks idCounter1 idCounter2 g1.
           range_seq (Num 1) (add (maxRank g) (Num 1)) 1 = Some downRanks
         \<and> range_seq (sub (maxRank g) (Num 1)) (Num (- 1)) (- 1) = Some upRanks
         \<and> snd (buildLayerGraphs g downRanks InEdges idCounter) = idCounter1
         \<and> snd (buildLayerGraphs g upRanks OutEdges idCounter1) = idCounter2
         \<and> assignOrder g (map (map Some) (initOrder c g)) = Inr g1
         \<and> (if heuristic_disabled options
             then s = start_state g1 (fst (buildLayerGraphs g downRanks InEdges idCounter))
                        (fst (buildLayerGraphs g upRanks OutEdges idCounter1)) idCounter2
             else (\<exists>s1 best. order_loop c (start_state g1
                                 (fst (buildLayerGraphs g downRanks InEdges idCounter))
                                 (fst (buildLayerGraphs g upRanks OutEdges idCounter1)) idCounter2)
                               = Some (Inr s1)
                    \<and> ls_best s1 = Some best
                    \<and> assignOrder (ls_g s1) best = Inr (ls_g s)
                    \<and> s = s1\<lparr> ls_g := ls_g s \<rparr>))"
  using assms
  by (auto simp: order_def Let_def split: option.splits sum.splits prod.splits if_splits)

lemma erase_order_eq:
  "erase_order lbl' = erase_order lbl \<Longrightarrow> lbl' = lbl\<lparr> node_order := node_order lbl' \<rparr>"
  by (cases lbl; cases lbl'; simp add: erase_order_def)

lemma order_frame:
  assumes "custom_strategy options = None" and "order c options g idCounter = Some (Inr s)"
  shows "same_but_order g (ls_g s)"
proof -
  from order_unfold [OF assms] obtain downRanks upRanks idCounter1 idCounter2 g1 where
    a: "assignOrder g (map (map Some) (initOrder c g)) = Inr g1"
    and b: "if heuristic_disabled options
             then s = start_state g1 (fst (buildLayerGraphs g downRanks InEdges idCounter))
                        (fst (buildLayerGraphs g upRanks OutEdges idCounter1)) idCounter2
             else (\<exists>s1 best. order_loop c (start_state g1
                                 (fst (buildLayerGraphs g downRanks InEdges idCounter))
                                 (fst (buildLayerGraphs g upRanks OutEdges idCounter1)) idCounter2)
                               = Some (Inr s1)
                    \<and> ls_best s1 = Some best
                    \<and> assignOrder (ls_g s1) best = Inr (ls_g s)
                    \<and> s = s1\<lparr> ls_g := ls_g s \<rparr>)"
    by blast
  have f1: "same_but_order g g1" using a by (rule assignOrder_frame)
  show ?thesis
  proof (cases "heuristic_disabled options")
    case True
    then show ?thesis using b f1 by (simp add: start_state_def)
  next
    case False
    with b obtain s1 best where
      l: "order_loop c (start_state g1 (fst (buildLayerGraphs g downRanks InEdges idCounter))
                 (fst (buildLayerGraphs g upRanks OutEdges idCounter1)) idCounter2) = Some (Inr s1)"
      and c: "assignOrder (ls_g s1) best = Inr (ls_g s)"
      by auto
    have "same_but_order g1 (ls_g s1)"
      using order_loop_frame [OF l] by (simp add: start_state_def)
    then show ?thesis
      using f1 assignOrder_frame [OF c] by (blast intro: same_but_order_trans)
  qed
qed

subsection \<open>The schedule of the sweeps\<close>

lemma lg_setNode_family [simp]:
  "lg_rank (lg_setNode lg v) = lg_rank lg" "lg_relationship (lg_setNode lg v) = lg_relationship lg"
  by (simp_all add: lg_setNode_def)

lemma lg_setParent_family [simp]:
  "lg_rank (lg_setParent lg v p) = lg_rank lg"
  "lg_relationship (lg_setParent lg v p) = lg_relationship lg"
  by (simp_all add: lg_setParent_def Let_def)

lemma lg_setEdge_family [simp]:
  "lg_rank (lg_setEdge lg u v x) = lg_rank lg"
  "lg_relationship (lg_setEdge lg u v x) = lg_relationship lg"
  by (simp_all add: lg_setEdge_def Let_def)

lemma lg_setNodeLabel_family [simp]:
  "lg_rank (lg_setNodeLabel lg v lbl) = lg_rank lg"
  "lg_relationship (lg_setNodeLabel lg v lbl) = lg_relationship lg"
  by (simp_all add: lg_setNodeLabel_def)

lemma add_layer_edges_family [simp]:
  "lg_rank (foldl (add_layer_edge g v) lg es) = lg_rank lg"
  "lg_relationship (foldl (add_layer_edge g v) lg es) = lg_relationship lg"
  by (induction es arbitrary: lg) (simp_all add: add_layer_edge_def Let_def)

lemma add_layer_node_family [simp]:
  "lg_rank (add_layer_node g rank rel rt lg v) = lg_rank lg"
  "lg_relationship (add_layer_node g rank rel rt lg v) = lg_relationship lg"
  by (simp_all add: add_layer_node_def Let_def)

lemma add_layer_nodes_family [simp]:
  "lg_rank (foldl (add_layer_node g rank rel rt) lg vs) = lg_rank lg"
  "lg_relationship (foldl (add_layer_node g rank rel rt) lg vs) = lg_relationship lg"
  by (induction vs arbitrary: lg) simp_all

lemma buildLayerGraph_family:
  "lg_rank (fst (buildLayerGraph g rank rel vs idCounter)) = rank"
  "lg_relationship (fst (buildLayerGraph g rank rel vs idCounter)) = rel"
  by (simp_all add: buildLayerGraph_def split: prod.splits)

lemma map_buildLayerGraph_family:
  "family_of (fst (map_buildLayerGraph g rel m ranks idCounter)) = map (\<lambda>r. (r, rel)) ranks"
proof (induction ranks arbitrary: idCounter)
  case Nil
  then show ?case by (simp add: family_of_def)
next
  case (Cons rank ranks)
  obtain lg c1 where a: "buildLayerGraph g rank rel (m rank) idCounter = (lg, c1)"
    by (cases "buildLayerGraph g rank rel (m rank) idCounter")
  obtain lgs c2 where b: "map_buildLayerGraph g rel m ranks c1 = (lgs, c2)"
    by (cases "map_buildLayerGraph g rel m ranks c1")
  have "lg_rank lg = rank" "lg_relationship lg = rel"
    using buildLayerGraph_family [of g rank rel "m rank" idCounter] a by simp_all
  moreover have "family_of lgs = map (\<lambda>r. (r, rel)) ranks" using Cons.IH [of c1] b by simp
  ultimately show ?case using a b by (simp add: family_of_def)
qed

lemma buildLayerGraphs_family:
  "family_of (fst (buildLayerGraphs g ranks rel idCounter)) = map (\<lambda>r. (r, rel)) ranks"
  by (simp add: buildLayerGraphs_def Let_def map_buildLayerGraph_family)

lemma set_lg_order_family:
  "set_lg_order (lg, g) v i = Inr (lg', g') \<Longrightarrow>
     lg_rank lg' = lg_rank lg \<and> lg_relationship lg' = lg_relationship lg"
  by (auto simp: set_lg_order_def split: if_splits option.splits)

lemma assign_sorted_family:
  "assign_sorted (lg, g) vs i = Inr (lg', g') \<Longrightarrow>
     lg_rank lg' = lg_rank lg \<and> lg_relationship lg' = lg_relationship lg"
proof (induction vs arbitrary: lg g i)
  case Nil
  then show ?case by simp
next
  case (Cons v vs)
  from Cons.prems obtain lg1 g1 where a: "set_lg_order (lg, g) v i = Inr (lg1, g1)"
    and b: "assign_sorted (lg1, g1) vs (Suc i) = Inr (lg', g')"
    by (auto split: sum.splits)
  show ?case using set_lg_order_family [OF a] Cons.IH [OF b] by simp
qed

lemma sweep_each_family:
  "sweep_each c biasRight lgs cg g = Inr (lgs', g') \<Longrightarrow> family_of lgs' = family_of lgs"
proof (induction lgs arbitrary: cg g lgs')
  case Nil
  then show ?case by simp
next
  case (Cons lg lgs)
  from Cons.prems obtain lg1 g1 lgs1 where
    a: "assign_sorted (lg, g) (sortSubgraph c lg g (lg_root lg) cg biasRight) 0 = Inr (lg1, g1)"
    and b: "sweep_each c biasRight lgs
              (addSubgraphConstraints c lg1 g1 cg (sortSubgraph c lg g (lg_root lg) cg biasRight)) g1
              = Inr (lgs1, g')"
    and c: "lgs' = lg1 # lgs1"
    by (auto simp: Let_def split: sum.splits prod.splits)
  show ?case using assign_sorted_family [OF a] Cons.IH [OF b] c by (simp add: family_of_def)
qed

text \<open>
  The facts that hold each time the loop test is reached: the iteration index is the length
  of the history, each entry is on schedule, \<open>lastBest\<close> counts the iterations since (and
  including) the last improving one, and \<open>bestCC\<close>, \<open>best\<close> are the least crossing count
  seen and the layering that had it.
\<close>

definition on_schedule ::
  "(number \<times> relationship) list \<Rightarrow> (number \<times> relationship) list \<Rightarrow> sweep_entry list \<Rightarrow> bool" where
  "on_schedule downFamily upFamily hist =
     (\<forall>k<length hist. se_index (hist ! k) = k
        \<and> se_family (hist ! k) = (if even k then upFamily else downFamily)
        \<and> se_biasRight (hist ! k) = (2 \<le> k mod 4))"

definition since_improvement :: "bool list \<Rightarrow> nat \<Rightarrow> bool" where
  "since_improvement improved lastBest =
     (if improved = [] then lastBest = 0
      else 1 \<le> lastBest \<and> lastBest \<le> 4 \<and> lastBest \<le> length improved
           \<and> improved ! (length improved - lastBest)
           \<and> (\<forall>k<length improved. length improved - lastBest < k \<longrightarrow> \<not> improved ! k))"

definition stalled_at :: "bool list \<Rightarrow> nat \<Rightarrow> bool" where
  "stalled_at improved j =
     (j + 3 \<le> length improved \<and> \<not> improved ! j \<and> \<not> improved ! (j + 1) \<and> \<not> improved ! (j + 2))"

definition stop_rule :: "bool list \<Rightarrow> nat \<Rightarrow> bool" where
  "stop_rule improved lastBest =
     (since_improvement improved lastBest
      \<and> (\<forall>j. stalled_at improved j \<longrightarrow> j + 3 = length improved \<and> lastBest = 4))"

definition entry_ok :: "'cg collaborators \<Rightarrow> sweep_entry \<Rightarrow> bool" where
  "entry_ok c e =
     (buildLayerMatrix (se_g e) = Some (Inr (se_layering e))
      \<and> se_cc e = crossCount c (se_g e) (se_layering e))"

definition best_seen :: "'cg collaborators \<Rightarrow> loop_state \<Rightarrow> bool" where
  "best_seen c s =
     ((\<forall>e\<in>set (ls_log s). entry_ok c e)
      \<and> (case ls_bestCC s of
            None \<Rightarrow> ls_log s = [] \<and> ls_best s = None
          | Some b \<Rightarrow> (\<forall>e\<in>set (ls_log s). b \<le> se_cc e)
                      \<and> (\<exists>e\<in>set (ls_log s). se_cc e = b \<and> ls_best s = Some (se_layering e))))"

definition flags_ok :: "sweep_entry list \<Rightarrow> bool" where
  "flags_ok hist =
     (\<forall>k<length hist. se_improved (hist ! k) = (\<forall>j<k. se_cc (hist ! k) < se_cc (hist ! j)))"

definition loop_inv ::
  "'cg collaborators \<Rightarrow> (number \<times> relationship) list \<Rightarrow> (number \<times> relationship) list
     \<Rightarrow> loop_state \<Rightarrow> bool" where
  "loop_inv c downFamily upFamily s =
     (ls_i s = length (ls_log s)
      \<and> family_of (ls_down s) = downFamily \<and> family_of (ls_up s) = upFamily
      \<and> on_schedule downFamily upFamily (ls_log s)
      \<and> stop_rule (map se_improved (ls_log s)) (ls_lastBest s)
      \<and> best_seen c s \<and> flags_ok (ls_log s))"

lemma loop_inv_start:
  "loop_inv c (family_of down) (family_of up) (start_state g down up idCounter)"
  by (simp add: loop_inv_def start_state_def on_schedule_def stop_rule_def best_seen_def
      since_improvement_def stalled_at_def flags_ok_def)

lemma stop_ruleI:
  assumes "xs \<noteq> []" "1 \<le> lb" "lb \<le> 4" "lb \<le> length xs" "xs ! (length xs - lb)"
    and "\<And>k. k < length xs \<Longrightarrow> length xs - lb < k \<Longrightarrow> \<not> xs ! k"
    and "\<And>j. stalled_at xs j \<Longrightarrow> j + 3 = length xs \<and> lb = 4"
  shows "stop_rule xs lb"
proof -
  have "since_improvement xs lb"
    unfolding since_improvement_def using assms(1-6) by simp
  moreover have "\<forall>j. stalled_at xs j \<longrightarrow> j + 3 = length xs \<and> lb = 4"
    using assms(7) by blast
  ultimately show ?thesis unfolding stop_rule_def by simp
qed

lemma stop_rule_step:
  assumes inv: "stop_rule improved lastBest" and lt: "lastBest < 4"
    and first: "improved = [] \<longrightarrow> b"
  shows "stop_rule (improved @ [b]) ((if b then 0 else lastBest) + 1)"
proof -
  let ?n = "length improved"
  let ?xs = "improved @ [b]"
  have si: "since_improvement improved lastBest" using inv by (simp add: stop_rule_def)
  have le: "lastBest \<le> ?n" using si by (simp add: since_improvement_def split: if_splits)
  have old1: "improved \<noteq> [] \<Longrightarrow> 1 \<le> lastBest"
    and old2: "improved \<noteq> [] \<Longrightarrow> improved ! (?n - lastBest)"
    and old3: "\<And>k. improved \<noteq> [] \<Longrightarrow> k < ?n \<Longrightarrow> ?n - lastBest < k \<Longrightarrow> \<not> improved ! k"
    using si by (simp_all add: since_improvement_def)
  have win: "\<And>j. stalled_at improved j \<Longrightarrow> False"
  proof -
    fix j assume "stalled_at improved j"
    then have "lastBest = 4" using inv unfolding stop_rule_def by blast
    then show False using lt by simp
  qed
  have old_nth: "\<And>k. k < ?n \<Longrightarrow> ?xs ! k = improved ! k" by (simp add: nth_append)
  have last_nth: "?xs ! ?n = b" by simp
  have window: "j + 3 = length ?xs \<and> \<not> b \<and> \<not> improved ! (?n - 2) \<and> \<not> improved ! (?n - 1) \<and> 2 \<le> ?n"
    if st: "stalled_at ?xs j" for j
  proof -
    from st have j: "j + 3 \<le> length ?xs" and a: "\<not> ?xs ! j" "\<not> ?xs ! (j + 1)" "\<not> ?xs ! (j + 2)"
      unfolding stalled_at_def by blast+
    show ?thesis
    proof (cases "j + 3 \<le> ?n")
      case True
      then have "\<not> improved ! j" "\<not> improved ! (j + 1)" "\<not> improved ! (j + 2)"
        using a old_nth [of j] old_nth [of "j + 1"] old_nth [of "j + 2"] by simp_all
      then have "stalled_at improved j" using True unfolding stalled_at_def by blast
      then show ?thesis using win by blast
    next
      case False
      then have jn: "?n = j + 2" using j by simp
      have "\<not> b" using a(3) last_nth jn by simp
      moreover have "\<not> improved ! j" "\<not> improved ! (j + 1)"
        using a(1,2) old_nth [of j] old_nth [of "j + 1"] jn by simp_all
      ultimately show ?thesis using jn by simp
    qed
  qed
  show ?thesis
  proof (cases b)
    case True
    have "stop_rule ?xs 1"
    proof (rule stop_ruleI)
      show "?xs \<noteq> []" by simp
      show "(1::nat) \<le> 1" "(1::nat) \<le> 4" "1 \<le> length ?xs" by simp_all
      show "?xs ! (length ?xs - 1)" using True by simp
    next
      fix k assume "k < length ?xs" "length ?xs - 1 < k"
      then show "\<not> ?xs ! k" by simp
    next
      fix j assume "stalled_at ?xs j"
      then show "j + 3 = length ?xs \<and> (1::nat) = 4" using window [of j] True by blast
    qed
    then show ?thesis using True by simp
  next
    case False
    then have ne: "improved \<noteq> []" using first by auto
    have "stop_rule ?xs (lastBest + 1)"
    proof (rule stop_ruleI)
      show "?xs \<noteq> []" by simp
      show "1 \<le> lastBest + 1" by simp
      show "lastBest + 1 \<le> 4" using lt by simp
      show "lastBest + 1 \<le> length ?xs" using le by simp
      have "?n - lastBest < ?n" using old1 [OF ne] ne by (cases improved) simp_all
      then show "?xs ! (length ?xs - (lastBest + 1))"
        using old2 [OF ne] old_nth [of "?n - lastBest"] by simp
    next
      fix k assume k: "k < length ?xs" "length ?xs - (lastBest + 1) < k"
      show "\<not> ?xs ! k"
      proof (cases "k < ?n")
        case True
        then show ?thesis using old3 [OF ne True] k old_nth [OF True] by simp
      next
        case nk: False
        then have "k = ?n" using k by simp
        then show ?thesis using False by simp
      qed
    next
      fix j assume "stalled_at ?xs j"
      from window [OF this] have e: "j + 3 = length ?xs" and f2: "\<not> improved ! (?n - 2)"
        and f1: "\<not> improved ! (?n - 1)" and n2: "2 \<le> ?n" by blast+
      have "lastBest \<noteq> 1" using old2 [OF ne] f1 by auto
      moreover have "lastBest \<noteq> 2" using old2 [OF ne] f2 by auto
      ultimately have "lastBest = 3" using old1 [OF ne] lt by simp
      then show "j + 3 = length ?xs \<and> lastBest + 1 = 4" using e by simp
    qed
    then show ?thesis using False by simp
  qed
qed

lemma order_iteration_fields:
  assumes "order_iteration c s = Some (Inr s')"
  shows "\<exists>lgs g layering imp.
      sweepLayerGraphs c (if ls_i s mod 2 \<noteq> 0 then ls_down s else ls_up s) (2 \<le> ls_i s mod 4) (ls_g s)
        = Inr (lgs, g)
    \<and> buildLayerMatrix g = Some (Inr layering)
    \<and> imp = (case ls_bestCC s of None \<Rightarrow> True | Some b \<Rightarrow> crossCount c g layering < b)
    \<and> ls_i s' = ls_i s + 1
    \<and> ls_lastBest s' = (if imp then 0 else ls_lastBest s) + 1
    \<and> ls_bestCC s' = (if imp then Some (crossCount c g layering) else ls_bestCC s)
    \<and> ls_best s' = (if imp then Some layering else ls_best s)
    \<and> ls_g s' = g
    \<and> ls_down s' = (if ls_i s mod 2 \<noteq> 0 then lgs else ls_down s)
    \<and> ls_up s' = (if ls_i s mod 2 \<noteq> 0 then ls_up s else lgs)
    \<and> ls_log s' = ls_log s @
          [\<lparr> se_index = ls_i s,
             se_family = family_of (if ls_i s mod 2 \<noteq> 0 then ls_down s else ls_up s),
             se_biasRight = (2 \<le> ls_i s mod 4), se_g = g, se_layering = layering,
             se_cc = crossCount c g layering, se_improved = imp \<rparr>]"
proof -
  obtain lgs g where sw: "sweepLayerGraphs c (if ls_i s mod 2 \<noteq> 0 then ls_down s else ls_up s)
      (2 \<le> ls_i s mod 4) (ls_g s) = Inr (lgs, g)"
    using assms by (auto simp: order_iteration_def Let_def split: sum.splits)
  obtain layering where m: "buildLayerMatrix g = Some (Inr layering)"
    using assms sw by (auto simp: order_iteration_def Let_def split: option.splits sum.splits)
  show ?thesis
    using assms sw m
    by (intro exI [of _ lgs] exI [of _ g] exI [of _ layering] exI)
       (auto simp: order_iteration_def Let_def)
qed

lemma loop_inv_step:
  assumes inv: "loop_inv c df uf s" and lt: "ls_lastBest s < 4"
    and it: "order_iteration c s = Some (Inr s')"
  shows "loop_inv c df uf s'"
proof -
  from order_iteration_fields [OF it] obtain lgs g layering imp where
    sw: "sweepLayerGraphs c (if ls_i s mod 2 \<noteq> 0 then ls_down s else ls_up s) (2 \<le> ls_i s mod 4) (ls_g s)
        = Inr (lgs, g)"
    and m: "buildLayerMatrix g = Some (Inr layering)"
    and imp: "imp = (case ls_bestCC s of None \<Rightarrow> True | Some b \<Rightarrow> crossCount c g layering < b)"
    and i': "ls_i s' = ls_i s + 1"
    and lb': "ls_lastBest s' = (if imp then 0 else ls_lastBest s) + 1"
    and cc': "ls_bestCC s' = (if imp then Some (crossCount c g layering) else ls_bestCC s)"
    and best': "ls_best s' = (if imp then Some layering else ls_best s)"
    and down': "ls_down s' = (if ls_i s mod 2 \<noteq> 0 then lgs else ls_down s)"
    and up': "ls_up s' = (if ls_i s mod 2 \<noteq> 0 then ls_up s else lgs)"
    and log': "ls_log s' = ls_log s @
          [\<lparr> se_index = ls_i s,
             se_family = family_of (if ls_i s mod 2 \<noteq> 0 then ls_down s else ls_up s),
             se_biasRight = (2 \<le> ls_i s mod 4), se_g = g, se_layering = layering,
             se_cc = crossCount c g layering, se_improved = imp \<rparr>]"
    by blast
  define entry where "entry = \<lparr> se_index = ls_i s,
             se_family = family_of (if ls_i s mod 2 \<noteq> 0 then ls_down s else ls_up s),
             se_biasRight = (2 \<le> ls_i s mod 4), se_g = g, se_layering = layering,
             se_cc = crossCount c g layering, se_improved = imp \<rparr>"
  have log'': "ls_log s' = ls_log s @ [entry]" using log' by (simp add: entry_def)
  from inv have i: "ls_i s = length (ls_log s)" and d: "family_of (ls_down s) = df"
    and u: "family_of (ls_up s) = uf" and sch: "on_schedule df uf (ls_log s)"
    and stop: "stop_rule (map se_improved (ls_log s)) (ls_lastBest s)"
    and best: "best_seen c s" and flags: "flags_ok (ls_log s)"
    by (simp_all add: loop_inv_def)
  have fam: "family_of lgs = family_of (if ls_i s mod 2 \<noteq> 0 then ls_down s else ls_up s)"
    using sw unfolding sweepLayerGraphs_def by (rule sweep_each_family)
  have a1: "ls_i s' = length (ls_log s')" using i i' log'' by simp
  have a2: "family_of (ls_down s') = df" using d fam down' by simp
  have a3: "family_of (ls_up s') = uf" using u fam up' by simp
  have ef: "se_family entry = (if even (ls_i s) then uf else df)"
    using d u by (simp add: entry_def even_iff_mod_2_eq_zero)
  have a4: "on_schedule df uf (ls_log s')"
    unfolding on_schedule_def
  proof (intro allI impI)
    fix k assume k: "k < length (ls_log s')"
    show "se_index (ls_log s' ! k) = k
        \<and> se_family (ls_log s' ! k) = (if even k then uf else df)
        \<and> se_biasRight (ls_log s' ! k) = (2 \<le> k mod 4)"
    proof (cases "k < length (ls_log s)")
      case True
      then have "ls_log s' ! k = ls_log s ! k" by (simp add: log'' nth_append)
      then show ?thesis using sch True by (simp add: on_schedule_def)
    next
      case False
      then have kk: "k = length (ls_log s)" using k log'' by simp
      then have "ls_log s' ! k = entry" by (simp add: log'')
      then show ?thesis using ef kk i by (simp add: entry_def)
    qed
  qed
  have none: "ls_log s = [] \<Longrightarrow> imp"
    using best imp by (auto simp: best_seen_def split: option.splits)
  have a5: "stop_rule (map se_improved (ls_log s')) (ls_lastBest s')"
    using stop_rule_step [OF stop lt, of imp] none
    by (simp add: log'' lb' entry_def)
  have ok: "entry_ok c entry" using m by (simp add: entry_ok_def entry_def)
  have a6: "best_seen c s'"
  proof (cases imp)
    case True
    have low: "\<forall>e\<in>set (ls_log s). crossCount c g layering \<le> se_cc e"
      using best imp True by (fastforce simp: best_seen_def split: option.splits)
    show ?thesis
      using best ok low True
      by (simp add: best_seen_def log'' cc' best') (simp add: entry_def)
  next
    case False
    then obtain b where b: "ls_bestCC s = Some b" and nb: "\<not> crossCount c g layering < b"
      using imp by (auto split: option.splits)
    show ?thesis
      using best ok False b nb
      by (simp add: best_seen_def log'' cc' best') (auto simp: entry_def)
  qed
  have a7: "flags_ok (ls_log s')"
    unfolding flags_ok_def
  proof (intro allI impI)
    fix k assume k: "k < length (ls_log s')"
    show "se_improved (ls_log s' ! k) = (\<forall>j<k. se_cc (ls_log s' ! k) < se_cc (ls_log s' ! j))"
    proof (cases "k < length (ls_log s)")
      case True
      then have "\<forall>j\<le>k. ls_log s' ! j = ls_log s ! j" by (simp add: log'' nth_append)
      then show ?thesis using flags True by (simp add: flags_ok_def)
    next
      case False
      then have kk: "k = length (ls_log s)" using k log'' by simp
      have old: "\<forall>j<k. ls_log s' ! j = ls_log s ! j" using kk by (simp add: log'' nth_append)
      have new: "ls_log s' ! k = entry" using kk by (simp add: log'')
      have "imp = (\<forall>j<length (ls_log s). crossCount c g layering < se_cc (ls_log s ! j))"
      proof (cases "ls_bestCC s")
        case None
        then show ?thesis using best imp by (simp add: best_seen_def)
      next
        case (Some b)
        then have lo: "\<forall>e\<in>set (ls_log s). b \<le> se_cc e"
          and hit: "\<exists>e\<in>set (ls_log s). se_cc e = b"
          using best by (auto simp: best_seen_def)
        have "(crossCount c g layering < b)
                = (\<forall>e\<in>set (ls_log s). crossCount c g layering < se_cc e)"
        proof
          assume "crossCount c g layering < b"
          then show "\<forall>e\<in>set (ls_log s). crossCount c g layering < se_cc e"
            using lo by (auto intro: less_le_trans)
        next
          assume "\<forall>e\<in>set (ls_log s). crossCount c g layering < se_cc e"
          then show "crossCount c g layering < b" using hit by auto
        qed
        also have "\<dots> = (\<forall>j<length (ls_log s). crossCount c g layering < se_cc (ls_log s ! j))"
          by (simp add: all_set_conv_all_nth)
        finally show ?thesis using imp Some by simp
      qed
      then show ?thesis using old new kk by (simp add: entry_def)
    qed
  qed
  show ?thesis unfolding loop_inv_def using a1 a2 a3 a4 a5 a6 a7 by simp
qed

lemma order_loop_inv:
  "order_loop c s = Some (Inr s') \<Longrightarrow> loop_inv c df uf s \<Longrightarrow>
     loop_inv c df uf s' \<and> \<not> ls_lastBest s' < 4"
proof (induction c s rule: order_loop.induct)
  case (1 c s)
  show ?case
  proof (cases "ls_lastBest s < 4")
    case True
    with "1.prems"(1) obtain s1 where a: "order_iteration c s = Some (Inr s1)"
      and b: "order_loop c s1 = Some (Inr s')"
      by (subst (asm) order_loop.simps) (auto split: option.splits sum.splits)
    have "loop_inv c df uf s1" using "1.prems"(2) True a by (rule loop_inv_step)
    then show ?thesis using "1.IH" [OF True a refl b] by simp
  next
    case False
    with "1.prems" show ?thesis by (subst (asm) order_loop.simps) simp
  qed
qed

subsection \<open>The loop returns\<close>

lemma node_rank_erase: "erase_order lbl' = erase_order lbl \<Longrightarrow> node_rank lbl' = node_rank lbl"
  by (cases lbl; cases lbl'; simp add: erase_order_def)

lemma same_but_order_maxRank: "same_but_order g g' \<Longrightarrow> maxRank g' = maxRank g"
proof -
  assume a: "same_but_order g g'"
  then have "\<And>v. node_rank (node g' v) = node_rank (node g v)"
    by (auto simp: same_but_order_def intro: node_rank_erase)
  moreover have "nodes g' = nodes g" using a by (simp add: same_but_order_def)
  ultimately show ?thesis by (simp add: maxRank_def)
qed

lemma buildLayerMatrix_returns: "maxRank g \<noteq> PInf \<Longrightarrow> \<exists>r. buildLayerMatrix g = Some r"
  by (cases "maxRank g") (auto simp: buildLayerMatrix_def range_seq_def split: if_splits)

lemma order_iteration_returns:
  assumes "maxRank (ls_g s) \<noteq> PInf"
  shows "\<exists>r. order_iteration c s = Some r"
proof (cases "sweepLayerGraphs c (if ls_i s mod 2 \<noteq> 0 then ls_down s else ls_up s)
                (2 \<le> ls_i s mod 4) (ls_g s)")
  case (Inl e)
  then show ?thesis by (simp add: order_iteration_def Let_def)
next
  case (Inr p)
  obtain lgs g where p: "p = (lgs, g)" by (cases p)
  have "same_but_order (ls_g s) g"
    using Inr p unfolding sweepLayerGraphs_def by (auto dest: sweep_each_frame)
  then have "maxRank g \<noteq> PInf" using assms by (simp add: same_but_order_maxRank)
  then obtain r where "buildLayerMatrix g = Some r" using buildLayerMatrix_returns by blast
  then show ?thesis using Inr p
    by (cases r) (simp_all add: order_iteration_def Let_def)
qed

lemma order_loop_returns:
  "maxRank (ls_g s) \<noteq> PInf \<Longrightarrow> \<exists>r. order_loop c s = Some r"
proof (induction c s rule: order_loop.induct)
  case (1 c s)
  show ?case
  proof (cases "ls_lastBest s < 4")
    case True
    obtain r where r: "order_iteration c s = Some r"
      using order_iteration_returns [OF "1.prems"] by blast
    show ?thesis
    proof (cases r)
      case (Inl e)
      then show ?thesis using True r by (subst order_loop.simps) simp
    next
      case (Inr s1)
      have "same_but_order (ls_g s) (ls_g s1)" using r Inr by (auto dest: order_iteration_frame)
      then have "maxRank (ls_g s1) \<noteq> PInf" using "1.prems" by (simp add: same_but_order_maxRank)
      then obtain r' where "order_loop c s1 = Some r'"
        using "1.IH" [OF True r Inr] by blast
      then show ?thesis using True r Inr by (subst order_loop.simps) simp
    qed
  next
    case False
    then show ?thesis by (subst order_loop.simps) simp
  qed
qed

lemma stop_rule_final:
  assumes "stop_rule improved lastBest" and "\<not> lastBest < 4"
  shows "4 \<le> length improved \<and> improved ! (length improved - 4)
       \<and> \<not> improved ! (length improved - 3) \<and> \<not> improved ! (length improved - 2)
       \<and> \<not> improved ! (length improved - 1)
       \<and> (\<forall>j. j + 3 < length improved \<longrightarrow> improved ! j \<or> improved ! (j + 1) \<or> improved ! (j + 2))"
proof -
  let ?n = "length improved"
  have si: "since_improvement improved lastBest" using assms(1) by (simp add: stop_rule_def)
  have ne: "improved \<noteq> []" using si assms(2) by (auto simp: since_improvement_def)
  have lb: "lastBest = 4" using si ne assms(2) by (simp add: since_improvement_def)
  have n: "4 \<le> ?n" and a: "improved ! (?n - 4)"
    and b: "\<And>k. k < ?n \<Longrightarrow> ?n - 4 < k \<Longrightarrow> \<not> improved ! k"
    using si ne lb by (simp_all add: since_improvement_def)
  have c: "\<forall>j. j + 3 < ?n \<longrightarrow> improved ! j \<or> improved ! (j + 1) \<or> improved ! (j + 2)"
  proof (intro allI impI)
    fix j assume j: "j + 3 < ?n"
    show "improved ! j \<or> improved ! (j + 1) \<or> improved ! (j + 2)"
    proof (rule ccontr)
      assume "\<not> (improved ! j \<or> improved ! (j + 1) \<or> improved ! (j + 2))"
      then have "stalled_at improved j" using j by (simp add: stalled_at_def)
      then have "j + 3 = ?n" using assms(1) unfolding stop_rule_def by blast
      then show False using j by simp
    qed
  qed
  show ?thesis using n a b [of "?n - 3"] b [of "?n - 2"] b [of "?n - 1"] c by simp
qed

subsection \<open>The ranks of the two families\<close>

lemma range_up_int: "range_up (of_int a) (of_int b) 1 = map of_int [a..b - 1]"
proof (induction "nat (b - a)" arbitrary: a)
  case 0
  then have "b \<le> a" by simp
  then show ?case by (subst range_up.simps) simp
next
  case (Suc n)
  then have lt: "a < b" and n: "n = nat (b - (a + 1))" by simp_all
  have "range_up (of_int a) (of_int b) 1 = of_int a # range_up (of_int (a + 1)) (of_int b) 1"
    using lt by (subst range_up.simps) (simp add: add.commute)
  also have "\<dots> = of_int a # map of_int [a + 1..b - 1]" using Suc.hyps(1) [OF n] by simp
  also have "\<dots> = map of_int [a..b - 1]" using lt by (simp add: upto_rec1 [of a "b - 1"])
  finally show ?case .
qed

lemma range_down_int: "range_down (of_int a) (of_int b) (- 1) = map of_int (rev [b + 1..a])"
proof (induction "nat (a - b)" arbitrary: a)
  case 0
  then have "a \<le> b" by simp
  then show ?case by (subst range_down.simps) simp
next
  case (Suc n)
  then have lt: "b < a" and n: "n = nat (a - 1 - b)" by simp_all
  have "range_down (of_int a) (of_int b) (- 1)
          = of_int a # range_down (of_int (a - 1)) (of_int b) (- 1)"
    using lt by (subst range_down.simps) simp
  also have "\<dots> = of_int a # map of_int (rev [b + 1..a - 1])" using Suc.hyps(1) [OF n] by simp
  also have "\<dots> = map of_int (rev [b + 1..a])" using lt by (simp add: upto_rec2 [of "b + 1" a])
  finally show ?case .
qed

lemma range_seq_up: "range_seq (Num a) (Num b) 1 = Some (map Num (range_up a b 1))"
proof (cases "a < b")
  case True
  then show ?thesis by (simp add: range_seq_def)
next
  case False
  then have "range_up a b 1 = []" by (subst range_up.simps) simp
  then show ?thesis using False by (simp add: range_seq_def)
qed

lemma range_seq_down: "range_seq (Num a) (Num b) (- 1) = Some (map Num (range_down a b (- 1)))"
proof (cases "b < a")
  case True
  then show ?thesis by (simp add: range_seq_def)
next
  case False
  then have "range_down a b (- 1) = []" by (subst range_down.simps) simp
  then show ?thesis using False by (simp add: range_seq_def)
qed

lemma down_ranks:
  "range_seq (Num 1) (add (of_rank M) (Num 1)) 1 = Some (map of_rank [1..M])"
proof -
  have lim: "add (of_rank M) (Num 1) = Num (of_int (M + 1))"
    using add_of_rank [of M 1] by (simp add: of_rank_def)
  have "range_seq (Num 1) (add (of_rank M) (Num 1)) 1
          = Some (map Num (range_up (of_int 1) (of_int (M + 1)) 1))"
    unfolding lim using range_seq_up [of "of_int 1" "of_int (M + 1)"] by simp
  also have "\<dots> = Some (map of_rank [1..M])"
    unfolding range_up_int by (simp add: of_rank_def comp_def)
  finally show ?thesis .
qed

lemma up_ranks:
  "range_seq (sub (of_rank M) (Num 1)) (Num (- 1)) (- 1) = Some (map of_rank (rev [0..M - 1]))"
proof -
  have st: "sub (of_rank M) (Num 1) = Num (of_int (M - 1))"
    using sub_of_rank [of M 1] by (simp add: of_rank_def)
  have "range_seq (sub (of_rank M) (Num 1)) (Num (- 1)) (- 1)
          = Some (map Num (range_down (of_int (M - 1)) (of_int (- 1)) (- 1)))"
    unfolding st using range_seq_down [of "of_int (M - 1)" "of_int (- 1)"] by simp
  also have "\<dots> = Some (map of_rank (rev [0..M - 1]))"
    unfolding range_down_int by (simp add: of_rank_def comp_def)
  finally show ?thesis .
qed

lemma loop_inv_ls_g [simp]: "loop_inv c df uf (s\<lparr> ls_g := g \<rparr>) = loop_inv c df uf s"
  by (simp add: loop_inv_def best_seen_def cong: option.case_cong)

text \<open>The invariant holds of the state that \<open>order\<close> returns.\<close>

lemma order_inv:
  assumes "custom_strategy options = None" and "order c options g idCounter = Some (Inr s)"
  shows "\<exists>downRanks upRanks.
           range_seq (Num 1) (add (maxRank g) (Num 1)) 1 = Some downRanks
         \<and> range_seq (sub (maxRank g) (Num 1)) (Num (- 1)) (- 1) = Some upRanks
         \<and> loop_inv c (map (\<lambda>r. (r, InEdges)) downRanks) (map (\<lambda>r. (r, OutEdges)) upRanks) s
         \<and> (\<not> heuristic_disabled options \<longrightarrow>
               \<not> ls_lastBest s < 4
               \<and> (\<exists>g_last best. ls_best s = Some best \<and> assignOrder g_last best = Inr (ls_g s)))"
proof -
  from order_unfold [OF assms] obtain downRanks upRanks idCounter1 idCounter2 g1 where
    dr: "range_seq (Num 1) (add (maxRank g) (Num 1)) 1 = Some downRanks"
    and ur: "range_seq (sub (maxRank g) (Num 1)) (Num (- 1)) (- 1) = Some upRanks"
    and b: "if heuristic_disabled options
             then s = start_state g1 (fst (buildLayerGraphs g downRanks InEdges idCounter))
                        (fst (buildLayerGraphs g upRanks OutEdges idCounter1)) idCounter2
             else (\<exists>s1 best. order_loop c (start_state g1
                                 (fst (buildLayerGraphs g downRanks InEdges idCounter))
                                 (fst (buildLayerGraphs g upRanks OutEdges idCounter1)) idCounter2)
                               = Some (Inr s1)
                    \<and> ls_best s1 = Some best
                    \<and> assignOrder (ls_g s1) best = Inr (ls_g s)
                    \<and> s = s1\<lparr> ls_g := ls_g s \<rparr>)"
    by blast
  let ?down = "fst (buildLayerGraphs g downRanks InEdges idCounter)"
  let ?up = "fst (buildLayerGraphs g upRanks OutEdges idCounter1)"
  let ?s0 = "start_state g1 ?down ?up idCounter2"
  have "loop_inv c (family_of ?down) (family_of ?up) ?s0" by (rule loop_inv_start)
  then have inv0: "loop_inv c (map (\<lambda>r. (r, InEdges)) downRanks) (map (\<lambda>r. (r, OutEdges)) upRanks) ?s0"
    by (simp add: buildLayerGraphs_family)
  have "loop_inv c (map (\<lambda>r. (r, InEdges)) downRanks) (map (\<lambda>r. (r, OutEdges)) upRanks) s
         \<and> (\<not> heuristic_disabled options \<longrightarrow>
               \<not> ls_lastBest s < 4
               \<and> (\<exists>g_last best. ls_best s = Some best \<and> assignOrder g_last best = Inr (ls_g s)))"
  proof (cases "heuristic_disabled options")
    case True
    then show ?thesis using b inv0 by simp
  next
    case False
    with b obtain s1 best where
      l: "order_loop c ?s0 = Some (Inr s1)" and bs: "ls_best s1 = Some best"
      and c: "assignOrder (ls_g s1) best = Inr (ls_g s)" and s: "s = s1\<lparr> ls_g := ls_g s \<rparr>"
      by auto
    have i1: "loop_inv c (map (\<lambda>r. (r, InEdges)) downRanks) (map (\<lambda>r. (r, OutEdges)) upRanks) s1"
      and st: "\<not> ls_lastBest s1 < 4"
      using order_loop_inv [OF l inv0] by simp_all
    have i2: "loop_inv c (map (\<lambda>r. (r, InEdges)) downRanks) (map (\<lambda>r. (r, OutEdges)) upRanks) s"
      by (subst s) (simp add: i1)
    have "ls_lastBest s = ls_lastBest s1" "ls_best s = ls_best s1"
      by (subst s, simp)+
    then show ?thesis using i2 st bs c False by auto
  qed
  then show ?thesis using dr ur by blast
qed

subsection \<open>A run of order on a graph with two ranks\<close>

text \<open>
  Nodes \<open>A\<close>, \<open>B\<close> at rank 0 and \<open>C\<close>, \<open>D\<close> at rank 1, with the edges \<open>A \<rightarrow> C\<close> and
  \<open>B \<rightarrow> D\<close>. The collaborators: the seeder lists each rank in the order of \<open>g.nodes()\<close>;
  the crossing counter counts the pairs of edges between the same two rows whose end points
  are in opposite order; the sorter returns the movable nodes of the layer graph (the
  children of its root), reversed when \<open>A\<close> is among them; constraints are not recorded.
\<close>

definition ex_cross :: Graph where
  "ex_cross =
     \<lparr> nodes = [''A'', ''B'', ''C'', ''D''],
       node = (\<lambda>v. blank\<lparr> node_rank := Some (of_rank (if v = ''A'' \<or> v = ''B'' then 0 else 1)) \<rparr>),
       parent = (\<lambda>_. None),
       edges = [Edge ''A'' ''C'' None, Edge ''B'' ''D'' None],
       edge = (\<lambda>_. \<lparr> edge_weight = 1, edge_minlen = 1 \<rparr>),
       graph = \<lparr> graph_nodeRankFactor = None \<rparr> \<rparr>"

definition row_of :: "layering \<Rightarrow> id \<Rightarrow> nat" where
  "row_of layering v = length (takeWhile (\<lambda>row. Some v \<notin> set row) layering)"

definition col_of :: "layering \<Rightarrow> id \<Rightarrow> nat" where
  "col_of layering v =
     (case dropWhile (\<lambda>row. Some v \<notin> set row) layering of
        [] \<Rightarrow> 0
      | row # _ \<Rightarrow> length (takeWhile (\<lambda>x. x \<noteq> Some v) row))"

definition crosses :: "layering \<Rightarrow> edge_obj \<Rightarrow> edge_obj \<Rightarrow> bool" where
  "crosses l e1 e2 =
     (row_of l (e_v e1) = row_of l (e_v e2) \<and> row_of l (e_w e1) = row_of l (e_w e2)
      \<and> ((col_of l (e_v e1) < col_of l (e_v e2) \<and> col_of l (e_w e2) < col_of l (e_w e1))
          \<or> (col_of l (e_v e2) < col_of l (e_v e1) \<and> col_of l (e_w e1) < col_of l (e_w e2))))"

fun pairs :: "'a list \<Rightarrow> ('a \<times> 'a) list" where
  "pairs [] = []"
| "pairs (x # xs) = map (Pair x) xs @ pairs xs"

definition count_crossings :: "Graph \<Rightarrow> layering \<Rightarrow> nat" where
  "count_crossings g l = length (filter (\<lambda>(e1, e2). crosses l e1 e2) (pairs (edges g)))"

definition rows_by_rank :: "Graph \<Rightarrow> id list list" where
  "rows_by_rank g =
     map (\<lambda>r. filter (\<lambda>v. node_rank (node g v) = Some (of_rank r)) (nodes g)) [0, 1]"

definition movable :: "LayerGraph \<Rightarrow> id \<Rightarrow> id list" where
  "movable lg rt = filter (\<lambda>v. lg_parent lg v = Some rt) (lg_nodes lg)"

definition adverse :: "unit collaborators" where
  "adverse =
     \<lparr> initOrder = rows_by_rank,
       sortSubgraph = (\<lambda>lg g rt cg biasRight.
          if ''A'' \<in> set (movable lg rt) then rev (movable lg rt) else movable lg rt),
       addSubgraphConstraints = (\<lambda>lg g cg vs. cg),
       crossCount = count_crossings,
       new_cg = () \<rparr>"

definition ex_down :: LayerGraph where
  "ex_down = hd (fst (buildLayerGraphs ex_cross [Num 1] InEdges 0))"

definition ex_up :: LayerGraph where
  "ex_up = hd (fst (buildLayerGraphs ex_cross [Num 0] OutEdges 1))"

definition seeded :: Graph where
  "seeded = set_order (set_order (set_order (set_order ex_cross ''A'' 0) ''B'' 1) ''C'' 0) ''D'' 1"

lemmas build_simps = buildLayerGraphs_def index_node_def addNodeToRank_def buildLayerGraph_def
  createRootNode_def uniqueId_def while_hasNode.simps hasNode_def string_of_nat.simps
  digit_char_def add_layer_node_def add_layer_edge_def lg_setNode_def lg_setNodeLabel_def
  lg_setParent_def lg_edge_def lg_setEdge_def rel_edges_def inEdges_def outEdges_def
  strict_eq_def le_def to_number_def ex_cross_def blank_def of_rank_def Let_def

lemma ex_down_built: "buildLayerGraphs ex_cross [Num 1] InEdges 0 = ([ex_down], 1)"
  unfolding ex_down_def by (simp add: build_simps)

lemma ex_up_built: "buildLayerGraphs ex_cross [Num 0] OutEdges 1 = ([ex_up], 2)"
  unfolding ex_up_def by (simp add: build_simps)

lemma ex_down_facts:
  "lg_root ex_down = ''_root1''" "lg_nodes ex_down = [''C'', ''_root1'', ''A'', ''D'', ''B'']"
  "lg_own ex_down = (\<lambda>_. None)" "movable ex_down ''_root1'' = [''C'', ''D'']"
  "lg_rank ex_down = Num 1" "lg_relationship ex_down = InEdges"
  unfolding ex_down_def movable_def by (simp_all add: build_simps)

lemma ex_up_facts:
  "lg_root ex_up = ''_root2''" "lg_nodes ex_up = [''A'', ''_root2'', ''C'', ''B'', ''D'']"
  "lg_own ex_up = (\<lambda>_. None)" "movable ex_up ''_root2'' = [''A'', ''B'']"
  "lg_rank ex_up = Num 0" "lg_relationship ex_up = OutEdges"
  unfolding ex_up_def movable_def by (simp_all add: build_simps)

lemma set_order_simps:
  "nodes (set_order g v i) = nodes g" "edges (set_order g v i) = edges g"
  "node_rank (node (set_order g v i) u) = node_rank (node g u)"
  "node_order (node (set_order g v i) u) = (if u = v then Some i else node_order (node g u))"
  by (simp_all add: set_order_def)

lemma ex_cross_simps:
  "nodes ex_cross = [''A'', ''B'', ''C'', ''D'']"
  "edges ex_cross = [Edge ''A'' ''C'' None, Edge ''B'' ''D'' None]"
  "node_rank (node ex_cross v) = Some (of_rank (if v = ''A'' \<or> v = ''B'' then 0 else 1))"
  by (simp_all add: ex_cross_def blank_def)

lemma seeded_run: "assignOrder ex_cross (map (map Some) (initOrder adverse ex_cross)) = Inr seeded"
  by (simp add: adverse_def rows_by_rank_def ex_cross_simps hasNode_def set_order_simps
      seeded_def)

lemma sweep_up:
  assumes "nodes g = [''A'', ''B'', ''C'', ''D'']"
  shows "sweepLayerGraphs adverse [ex_up] b g
           = Inr ([ex_up], set_order (set_order g ''B'' 0) ''A'' 1)"
  using assms
  by (simp add: sweepLayerGraphs_def adverse_def ex_up_facts set_lg_order_def hasNode_def
      set_order_simps)

lemma sweep_down:
  assumes "nodes g = [''A'', ''B'', ''C'', ''D'']"
  shows "sweepLayerGraphs adverse [ex_down] b g
           = Inr ([ex_down], set_order (set_order g ''C'' 0) ''D'' 1)"
  using assms
  by (simp add: sweepLayerGraphs_def adverse_def ex_down_facts set_lg_order_def hasNode_def
      set_order_simps)

lemma maxRank_two_ranks:
  assumes "nodes g = [''A'', ''B'', ''C'', ''D'']"
    and "\<And>v. node_rank (node g v) = Some (of_rank (if v = ''A'' \<or> v = ''B'' then 0 else 1))"
  shows "maxRank g = Num 1"
  using assms by (simp add: maxRank_def math_max_Cons of_rank_def max2_def)

lemma matrix_two_ranks:
  assumes "nodes g = [''A'', ''B'', ''C'', ''D'']"
    and "\<And>v. node_rank (node g v) = Some (of_rank (if v = ''A'' \<or> v = ''B'' then 0 else 1))"
    and "node_order (node g ''A'') = Some a" "node_order (node g ''B'') = Some (1 - a)"
    and "node_order (node g ''C'') = Some 0" "node_order (node g ''D'') = Some 1"
    and "a = 0 \<or> a = 1"
  shows "buildLayerMatrix g
           = Some (Inr [if a = 0 then [Some ''A'', Some ''B''] else [Some ''B'', Some ''A''],
                        [Some ''C'', Some ''D'']])"
proof -
  have r: "range_seq (Num 0) (add (maxRank g) (Num 1)) 1 = Some [Num 0, Num 1]"
    unfolding maxRank_two_ranks [OF assms(1,2)]
    by (simp add: range_seq_def range_up.simps tiny_def)
  show ?thesis
    using assms(7)
    unfolding buildLayerMatrix_def r
    by (auto simp: assms(1-6) matrix_step_def put_at_def)
qed

lemma count_two_edges:
  assumes "edges g = [Edge ''A'' ''C'' None, Edge ''B'' ''D'' None]"
  shows "count_crossings g [[Some ''A'', Some ''B''], [Some ''C'', Some ''D'']] = 0"
    and "count_crossings g [[Some ''B'', Some ''A''], [Some ''C'', Some ''D'']] = 1"
  using assms by (simp_all add: count_crossings_def crosses_def row_of_def col_of_def)

definition two_ranks :: "Graph \<Rightarrow> bool" where
  "two_ranks g =
     (nodes g = [''A'', ''B'', ''C'', ''D'']
      \<and> edges g = [Edge ''A'' ''C'' None, Edge ''B'' ''D'' None]
      \<and> (\<forall>v. node_rank (node g v) = Some (of_rank (if v = ''A'' \<or> v = ''B'' then 0 else 1)))
      \<and> node_order (node g ''C'') = Some 0 \<and> node_order (node g ''D'') = Some 1
      \<and> (node_order (node g ''A'') = Some 0 \<and> node_order (node g ''B'') = Some 1
          \<or> node_order (node g ''A'') = Some 1 \<and> node_order (node g ''B'') = Some 0))"

definition reversed :: layering where
  "reversed = [[Some ''B'', Some ''A''], [Some ''C'', Some ''D'']]"

lemma two_ranks_seeded: "two_ranks seeded"
  by (simp add: two_ranks_def seeded_def set_order_simps ex_cross_simps)

lemma two_ranks_up: "two_ranks g \<Longrightarrow> two_ranks (set_order (set_order g ''B'' 0) ''A'' 1)"
  by (simp add: two_ranks_def set_order_simps)

lemma two_ranks_down: "two_ranks g \<Longrightarrow> two_ranks (set_order (set_order g ''C'' 0) ''D'' 1)"
  by (simp add: two_ranks_def set_order_simps)

lemma matrix_after_up:
  assumes "two_ranks g"
  shows "buildLayerMatrix (set_order (set_order g ''B'' 0) ''A'' 1) = Some (Inr reversed)"
  using matrix_two_ranks [of "set_order (set_order g ''B'' 0) ''A'' 1" 1] assms
  by (simp add: two_ranks_def set_order_simps reversed_def)

lemma matrix_reversed:
  assumes "two_ranks g" and "node_order (node g ''A'') = Some 1"
  shows "buildLayerMatrix g = Some (Inr reversed)"
  using matrix_two_ranks [of g 1] assms
  by (auto simp: two_ranks_def reversed_def)

lemma count_reversed: "two_ranks g \<Longrightarrow> count_crossings g reversed = 1"
  by (simp add: two_ranks_def reversed_def count_two_edges)

text \<open>
  What holds of the loop state on the example each time the loop test is reached: beyond
  the first iteration the first rank is in reversed order, and every entry of the history
  saw the reversed layering with its one crossing.
\<close>

definition adverse_state :: "loop_state \<Rightarrow> bool" where
  "adverse_state s =
     (two_ranks (ls_g s) \<and> ls_down s = [ex_down] \<and> ls_up s = [ex_up]
      \<and> (0 < ls_i s \<longrightarrow> node_order (node (ls_g s) ''A'') = Some 1)
      \<and> (\<forall>e\<in>set (ls_log s). se_cc e = 1 \<and> se_layering e = reversed)
      \<and> (ls_log s \<noteq> [] \<longrightarrow> ls_best s = Some reversed)
      \<and> (ls_log s = [] \<longrightarrow> ls_bestCC s = None))"

lemma adverse_state_start: "adverse_state (start_state seeded [ex_down] [ex_up] 2)"
  by (simp add: adverse_state_def start_state_def two_ranks_seeded)

lemma adverse_iteration:
  assumes "adverse_state s"
  shows "\<exists>s'. order_iteration adverse s = Some (Inr s') \<and> adverse_state s'"
proof -
  have tr: "two_ranks (ls_g s)" and dn: "ls_down s = [ex_down]" and up: "ls_up s = [ex_up]"
    and hist: "\<forall>e\<in>set (ls_log s). se_cc e = 1 \<and> se_layering e = reversed"
    and best: "ls_log s \<noteq> [] \<longrightarrow> ls_best s = Some reversed"
    and fresh: "ls_log s = [] \<longrightarrow> ls_bestCC s = None"
    using assms by (simp_all add: adverse_state_def)
  have nd: "nodes (ls_g s) = [''A'', ''B'', ''C'', ''D'']" using tr by (simp add: two_ranks_def)
  define g where "g = (if ls_i s mod 2 \<noteq> 0 then set_order (set_order (ls_g s) ''C'' 0) ''D'' 1
                       else set_order (set_order (ls_g s) ''B'' 0) ''A'' 1)"
  have sw: "sweepLayerGraphs adverse (if ls_i s mod 2 \<noteq> 0 then ls_down s else ls_up s)
              (2 \<le> ls_i s mod 4) (ls_g s)
            = Inr (if ls_i s mod 2 \<noteq> 0 then ls_down s else ls_up s, g)"
    using sweep_up [OF nd] sweep_down [OF nd] by (simp add: g_def dn up)
  have tr': "two_ranks g" using two_ranks_up [OF tr] two_ranks_down [OF tr] by (simp add: g_def)
  have a': "node_order (node g ''A'') = Some 1"
  proof (cases "ls_i s mod 2 \<noteq> 0")
    case True
    then have "0 < ls_i s" by (cases "ls_i s") simp_all
    then have "node_order (node (ls_g s) ''A'') = Some 1" using assms by (simp add: adverse_state_def)
    then show ?thesis using True by (simp add: g_def set_order_simps)
  next
    case False
    then show ?thesis by (simp add: g_def set_order_simps)
  qed
  have m: "buildLayerMatrix g = Some (Inr reversed)" using tr' a' by (rule matrix_reversed)
  have cc: "crossCount adverse g reversed = 1"
    using count_reversed [OF tr'] by (simp add: adverse_def)
  define imp where "imp = (case ls_bestCC s of None \<Rightarrow> True | Some b \<Rightarrow> (1::nat) < b)"
  define s' where "s' = s\<lparr> ls_i := ls_i s + 1,
                           ls_lastBest := (if imp then 0 else ls_lastBest s) + 1,
                           ls_bestCC := (if imp then Some 1 else ls_bestCC s),
                           ls_best := (if imp then Some reversed else ls_best s),
                           ls_g := g,
                           ls_down := (if ls_i s mod 2 \<noteq> 0
                                       then (if ls_i s mod 2 \<noteq> 0 then ls_down s else ls_up s)
                                       else ls_down s),
                           ls_up := (if ls_i s mod 2 \<noteq> 0 then ls_up s
                                     else (if ls_i s mod 2 \<noteq> 0 then ls_down s else ls_up s)),
                           ls_log := ls_log s @
                             [\<lparr> se_index = ls_i s,
                                se_family = family_of (if ls_i s mod 2 \<noteq> 0 then ls_down s else ls_up s),
                                se_biasRight = (2 \<le> ls_i s mod 4),
                                se_g = g, se_layering = reversed, se_cc = 1,
                                se_improved = imp \<rparr>] \<rparr>"
  have it: "order_iteration adverse s = Some (Inr s')"
    unfolding order_iteration_def Let_def sw
    by (simp add: m cc s'_def imp_def cong: option.case_cong)
  have "\<not> imp \<Longrightarrow> ls_best s = Some reversed"
    using best fresh by (cases "ls_log s = []") (simp_all add: imp_def)
  then have "adverse_state s'"
    unfolding adverse_state_def using tr' a' dn up hist by (auto simp: s'_def)
  then show ?thesis using it by blast
qed

lemma adverse_loop:
  "adverse_state s \<Longrightarrow> \<exists>s'. order_loop adverse s = Some (Inr s') \<and> adverse_state s'"
proof (induction adverse s rule: order_loop.induct)
  case (1 s)
  show ?case
  proof (cases "ls_lastBest s < 4")
    case True
    obtain s1 where it: "order_iteration adverse s = Some (Inr s1)" and st: "adverse_state s1"
      using adverse_iteration [OF "1.prems"] by blast
    obtain s' where "order_loop adverse s1 = Some (Inr s')" "adverse_state s'"
      using "1.hyps" [OF True it refl st] by blast
    then show ?thesis using True it by (subst order_loop.simps) simp
  next
    case False
    then show ?thesis using "1.prems" by (subst order_loop.simps) simp
  qed
qed

lemma adverse_setup:
  "custom_strategy None = None" "\<not> heuristic_disabled None"
  "maxRank ex_cross = of_rank 1"
  "range_seq (Num 1) (add (maxRank ex_cross) (Num 1)) 1 = Some [Num 1]"
  "range_seq (sub (maxRank ex_cross) (Num 1)) (Num (- 1)) (- 1) = Some [Num 0]"
proof -
  show "custom_strategy None = None" "\<not> heuristic_disabled None"
    by (simp_all add: custom_strategy_def heuristic_disabled_def)
  show m: "maxRank ex_cross = of_rank 1"
    using maxRank_two_ranks [of ex_cross] by (simp add: ex_cross_simps of_rank_def)
  show "range_seq (Num 1) (add (maxRank ex_cross) (Num 1)) 1 = Some [Num 1]"
    unfolding m down_ranks by (simp add: of_rank_def upto_rec1)
  show "range_seq (sub (maxRank ex_cross) (Num 1)) (Num (- 1)) (- 1) = Some [Num 0]"
    unfolding m up_ranks by (simp add: of_rank_def upto_rec1)
qed

lemma commit_reversed:
  assumes "two_ranks g"
  shows "\<exists>g'. assignOrder g reversed = Inr g' \<and> two_ranks g'
              \<and> node_order (node g' ''A'') = Some 1"
  using assms
  by (simp add: reversed_def hasNode_def two_ranks_def set_order_simps)

lemma adverse_run:
  "\<exists>s. order adverse None ex_cross 0 = Some (Inr s) \<and> adverse_state s
       \<and> node_order (node (ls_g s) ''A'') = Some 1
       \<and> loop_inv adverse [(Num 1, InEdges)] [(Num 0, OutEdges)] s \<and> \<not> ls_lastBest s < 4"
proof -
  let ?s0 = "start_state seeded [ex_down] [ex_up] 2"
  obtain s1 where loop: "order_loop adverse ?s0 = Some (Inr s1)" and st: "adverse_state s1"
    using adverse_loop [OF adverse_state_start] by blast
  have "loop_inv adverse (family_of [ex_down]) (family_of [ex_up]) ?s0" by (rule loop_inv_start)
  then have inv0: "loop_inv adverse [(Num 1, InEdges)] [(Num 0, OutEdges)] ?s0"
    by (simp add: family_of_def ex_down_facts ex_up_facts)
  have inv: "loop_inv adverse [(Num 1, InEdges)] [(Num 0, OutEdges)] s1"
    and stop: "\<not> ls_lastBest s1 < 4"
    using order_loop_inv [OF loop inv0] by simp_all
  have "ls_log s1 \<noteq> []"
    using inv stop by (auto simp: loop_inv_def stop_rule_def since_improvement_def)
  then have best: "ls_best s1 = Some reversed" using st by (simp add: adverse_state_def)
  have tr: "two_ranks (ls_g s1)" using st by (simp add: adverse_state_def)
  obtain g' where commit: "assignOrder (ls_g s1) reversed = Inr g'" and tr': "two_ranks g'"
    and a: "node_order (node g' ''A'') = Some 1"
    using commit_reversed [OF tr] by blast
  have run: "order adverse None ex_cross 0 = Some (Inr (s1\<lparr> ls_g := g' \<rparr>))"
    unfolding order_def
    using ex_up_built
    by (simp add: adverse_setup(1,2,4,5) ex_down_built seeded_run loop best commit Let_def)
  have "adverse_state (s1\<lparr> ls_g := g' \<rparr>)"
    using st tr' a by (simp add: adverse_state_def)
  moreover have "loop_inv adverse [(Num 1, InEdges)] [(Num 0, OutEdges)] (s1\<lparr> ls_g := g' \<rparr>)"
    using inv by simp
  ultimately show ?thesis using run a stop by (intro exI [of _ "s1\<lparr> ls_g := g' \<rparr>"]) simp
qed

lemma adverse_flags:
  assumes "adverse_state s" and "loop_inv adverse df uf s" and "\<not> ls_lastBest s < 4"
  shows "map se_improved (ls_log s) = [True, False, False, False]"
proof -
  let ?imp = "map se_improved (ls_log s)"
  let ?n = "length ?imp"
  have cc: "\<And>k. k < length (ls_log s) \<Longrightarrow> se_cc (ls_log s ! k) = 1"
    using assms(1) by (simp add: adverse_state_def)
  have flags: "\<And>k. k < length (ls_log s) \<Longrightarrow> se_improved (ls_log s ! k) = (k = 0)"
  proof -
    fix k assume k: "k < length (ls_log s)"
    have "se_improved (ls_log s ! k) = (\<forall>j<k. se_cc (ls_log s ! k) < se_cc (ls_log s ! j))"
      using assms(2) k by (simp add: loop_inv_def flags_ok_def)
    also have "\<dots> = (\<forall>j<k. (1::nat) < 1)" using cc k by simp
    also have "\<dots> = (k = 0)" by auto
    finally show "se_improved (ls_log s ! k) = (k = 0)" .
  qed
  have "stop_rule ?imp (ls_lastBest s)" using assms(2) by (simp add: loop_inv_def)
  from stop_rule_final [OF this assms(3)]
  have n4: "4 \<le> ?n" and hit: "?imp ! (?n - 4)" by simp_all
  have "?n - 4 = 0" using hit flags [of "?n - 4"] n4 by simp
  then have n: "length (ls_log s) = 4" using n4 by simp
  have "?imp = map (\<lambda>k. k = 0) [0..<4]"
    by (rule nth_equalityI) (simp_all add: n flags)
  then show ?thesis by (simp add: upt_rec)
qed

subsection \<open>The claims about order\<close>




text \<open>
  The condition under which the loop has stopped, on the list of the flags \<open>cc < bestCC\<close>
  of the iterations: the last three iterations did not improve, the one before them did,
  and no three consecutive iterations had failed to improve earlier.
\<close>

definition stopped_after_three :: "bool list \<Rightarrow> bool" where
  "stopped_after_three improved =
     (4 \<le> length improved \<and> improved ! (length improved - 4)
      \<and> \<not> improved ! (length improved - 3) \<and> \<not> improved ! (length improved - 2)
      \<and> \<not> improved ! (length improved - 1)
      \<and> (\<forall>j. j + 3 < length improved \<longrightarrow> improved ! j \<or> improved ! (j + 1) \<or> improved ! (j + 2)))"

text \<open>
  C5 (amended). On a graph whose ranks are not \<open>+Infinity\<close> the loop returns, whatever
  natural numbers the Crossing Counter returns. When it returns normally it has stopped
  exactly when three consecutive iterations have completed without a strict improvement of
  the best crossing count seen so far, that is four iterations after the start of the last
  improving one; an iteration improves when its count is below the counts of all
  earlier iterations.
\<close>

theorem order_loop_stops_after_three:
  assumes "maxRank g \<noteq> PInf"
  shows "(\<exists>r. order_loop c (start_state g downLayerGraphs upLayerGraphs idCounter) = Some r)
       \<and> (\<forall>s. order_loop c (start_state g downLayerGraphs upLayerGraphs idCounter) = Some (Inr s)
              \<longrightarrow> ls_i s = length (ls_log s)
                \<and> stopped_after_three (map se_improved (ls_log s))
                \<and> flags_ok (ls_log s))"
proof (intro conjI allI impI)
  show "\<exists>r. order_loop c (start_state g downLayerGraphs upLayerGraphs idCounter) = Some r"
    using assms by (intro order_loop_returns) (simp add: start_state_def)
next
  fix s assume l: "order_loop c (start_state g downLayerGraphs upLayerGraphs idCounter) = Some (Inr s)"
  have inv: "loop_inv c (family_of downLayerGraphs) (family_of upLayerGraphs) s"
    and stop: "\<not> ls_lastBest s < 4"
    using order_loop_inv [OF l loop_inv_start] by simp_all
  show "ls_i s = length (ls_log s)" using inv by (simp add: loop_inv_def)
  have "stop_rule (map se_improved (ls_log s)) (ls_lastBest s)" using inv by (simp add: loop_inv_def)
  from stop_rule_final [OF this stop]
  show "stopped_after_three (map se_improved (ls_log s))"
    unfolding stopped_after_three_def .
  show "flags_ok (ls_log s)" using inv by (simp add: loop_inv_def)
qed

lemma adverse_loop_flags:
  "\<exists>s. order_loop adverse (start_state seeded [ex_down] [ex_up] 2) = Some (Inr s)
       \<and> map se_improved (ls_log s) = [True, False, False, False]
       \<and> (\<forall>e\<in>set (ls_log s). se_cc e = 1)"
proof -
  let ?s0 = "start_state seeded [ex_down] [ex_up] 2"
  obtain s where loop: "order_loop adverse ?s0 = Some (Inr s)" and st: "adverse_state s"
    using adverse_loop [OF adverse_state_start] by blast
  have inv: "loop_inv adverse (family_of [ex_down]) (family_of [ex_up]) s"
    and stop: "\<not> ls_lastBest s < 4"
    using order_loop_inv [OF loop loop_inv_start] by simp_all
  have "map se_improved (ls_log s) = [True, False, False, False]"
    using st inv stop by (rule adverse_flags)
  moreover have "\<forall>e\<in>set (ls_log s). se_cc e = 1" using st by (simp add: adverse_state_def)
  ultimately show ?thesis using loop by (intro exI [of _ s]) simp
qed

lemma maxRank_seeded: "maxRank seeded = of_rank 1"
  using maxRank_two_ranks [of seeded] two_ranks_seeded by (simp add: two_ranks_def of_rank_def)

theorem order_loop_stops_after_three_witness:
  "maxRank seeded \<noteq> PInf
   \<and> (\<exists>s. order_loop adverse (start_state seeded [ex_down] [ex_up] 2) = Some (Inr s)
          \<and> ls_i s = 4 \<and> map se_improved (ls_log s) = [True, False, False, False]
          \<and> stopped_after_three (map se_improved (ls_log s)))"
proof -
  have fin: "maxRank seeded \<noteq> PInf" by (simp add: maxRank_seeded)
  obtain s where loop: "order_loop adverse (start_state seeded [ex_down] [ex_up] 2) = Some (Inr s)"
    and flags: "map se_improved (ls_log s) = [True, False, False, False]"
    using adverse_loop_flags by auto
  have "length (map se_improved (ls_log s)) = length [True, False, False, False]"
    using flags by (rule arg_cong)
  then have n: "length (ls_log s) = 4" by simp
  from order_loop_stops_after_three [OF fin, of adverse "[ex_down]" "[ex_up]" 2] loop
  have i: "ls_i s = length (ls_log s)" and st: "stopped_after_three (map se_improved (ls_log s))"
    by blast+
  show ?thesis
  proof (intro conjI exI)
    show "maxRank seeded \<noteq> PInf" by (rule fin)
    show "order_loop adverse (start_state seeded [ex_down] [ex_up] 2) = Some (Inr s)" by (rule loop)
    show "ls_i s = 4" using i n by simp
    show "map se_improved (ls_log s) = [True, False, False, False]" by (rule flags)
    show "stopped_after_three (map se_improved (ls_log s))" by (rule st)
  qed
qed

text \<open>
  C5 as stated fails: with a crossing count that stays at 1 the loop runs four iterations;
  the first improves on \<open>+Infinity\<close>, the next three do not, and the loop stops although only
  three consecutive iterations have completed without improvement.
\<close>

theorem order_loop_four_stalls_counterexample:
  "\<exists>s. order_loop adverse (start_state seeded [ex_down] [ex_up] 2) = Some (Inr s)
       \<and> map se_improved (ls_log s) = [True, False, False, False]
       \<and> map se_cc (ls_log s) = [1, 1, 1, 1]
       \<and> length (filter Not (map se_improved (ls_log s))) = 3"
proof -
  obtain s where loop: "order_loop adverse (start_state seeded [ex_down] [ex_up] 2) = Some (Inr s)"
    and flags: "map se_improved (ls_log s) = [True, False, False, False]"
    and cc: "\<forall>e\<in>set (ls_log s). se_cc e = 1"
    using adverse_loop_flags by auto
  have "length (map se_improved (ls_log s)) = length [True, False, False, False]"
    using flags by (rule arg_cong)
  then have n: "length (ls_log s) = 4" by simp
  have "map se_cc (ls_log s) = map (\<lambda>k. 1) [0..<4]"
    by (rule nth_equalityI) (use cc n in simp_all)
  then have ccs: "map se_cc (ls_log s) = [1, 1, 1, 1]" by (simp add: upt_rec)
  show ?thesis
  proof (intro conjI exI)
    show "order_loop adverse (start_state seeded [ex_down] [ex_up] 2) = Some (Inr s)" by (rule loop)
    show "map se_improved (ls_log s) = [True, False, False, False]" by (rule flags)
    show "map se_cc (ls_log s) = [1, 1, 1, 1]" by (rule ccs)
    show "length (filter Not (map se_improved (ls_log s))) = 3" unfolding flags by simp
  qed
qed

text \<open>
  C2 (amended). When the heuristic is enabled, the layering that \<open>order\<close> commits is the
  layer matrix obtained after one of the iterations of the loop, the Crossing Counter
  returned for it the least count among the counts returned after all the iterations, and
  that count is the final \<open>bestCC\<close>. The seeded order is never counted.
\<close>

theorem order_commits_least_count_seen:
  assumes "custom_strategy options = None" and "\<not> heuristic_disabled options"
    and "order c options g idCounter = Some (Inr s)"
  shows "\<exists>e\<in>set (ls_log s).
           buildLayerMatrix (se_g e) = Some (Inr (se_layering e))
         \<and> se_cc e = crossCount c (se_g e) (se_layering e)
         \<and> ls_best s = Some (se_layering e) \<and> ls_bestCC s = Some (se_cc e)
         \<and> (\<forall>e'\<in>set (ls_log s). se_cc e \<le> se_cc e')
         \<and> (\<exists>g_last. assignOrder g_last (se_layering e) = Inr (ls_g s))"
proof -
  from order_inv [OF assms(1,3)] assms(2) obtain df uf g_last best where
    inv: "loop_inv c df uf s" and stop: "\<not> ls_lastBest s < 4"
    and best: "ls_best s = Some best" and commit: "assignOrder g_last best = Inr (ls_g s)"
    by blast
  have ne: "ls_log s \<noteq> []"
    using inv stop by (auto simp: loop_inv_def stop_rule_def since_improvement_def)
  have bs: "best_seen c s" using inv by (simp add: loop_inv_def)
  then obtain b where b: "ls_bestCC s = Some b"
    using ne by (cases "ls_bestCC s") (auto simp: best_seen_def)
  from bs b obtain e where e: "e \<in> set (ls_log s)" and cc: "se_cc e = b"
    and lay: "ls_best s = Some (se_layering e)" and low: "\<forall>e'\<in>set (ls_log s). b \<le> se_cc e'"
    and ok: "entry_ok c e"
    by (auto simp: best_seen_def)
  have "buildLayerMatrix (se_g e) = Some (Inr (se_layering e))
         \<and> se_cc e = crossCount c (se_g e) (se_layering e)
         \<and> ls_best s = Some (se_layering e) \<and> ls_bestCC s = Some (se_cc e)
         \<and> (\<forall>e'\<in>set (ls_log s). se_cc e \<le> se_cc e')
         \<and> (\<exists>g_last. assignOrder g_last (se_layering e) = Inr (ls_g s))"
    using ok cc lay low b best commit by (auto simp: entry_ok_def)
  then show ?thesis using e by blast
qed

definition seed_order :: layering where
  "seed_order = [[Some ''A'', Some ''B''], [Some ''C'', Some ''D'']]"

lemma seeded_count:
  "buildLayerMatrix seeded = Some (Inr seed_order)" "crossCount adverse seeded seed_order = 0"
proof -
  have tr: "two_ranks seeded" by (rule two_ranks_seeded)
  show "buildLayerMatrix seeded = Some (Inr seed_order)"
    using matrix_two_ranks [of seeded 0] tr
    by (simp add: two_ranks_def seed_order_def seeded_def set_order_simps)
  show "crossCount adverse seeded seed_order = 0"
    using count_two_edges(1) [of seeded] tr by (simp add: adverse_def two_ranks_def seed_order_def)
qed

lemma adverse_final_count:
  assumes "adverse_state s" and "node_order (node (ls_g s) ''A'') = Some 1"
  shows "buildLayerMatrix (ls_g s) = Some (Inr reversed)"
    and "crossCount adverse (ls_g s) reversed = 1"
proof -
  have tr: "two_ranks (ls_g s)" using assms(1) by (simp add: adverse_state_def)
  show "buildLayerMatrix (ls_g s) = Some (Inr reversed)" using tr assms(2) by (rule matrix_reversed)
  show "crossCount adverse (ls_g s) reversed = 1"
    using count_reversed [OF tr] by (simp add: adverse_def)
qed

theorem order_commits_least_count_seen_witness:
  "custom_strategy None = None \<and> \<not> heuristic_disabled None
   \<and> (\<exists>s. order adverse None ex_cross 0 = Some (Inr s)
          \<and> ls_best s = Some reversed \<and> ls_bestCC s = Some 1
          \<and> buildLayerMatrix (ls_g s) = Some (Inr reversed))"
proof -
  obtain s where run: "order adverse None ex_cross 0 = Some (Inr s)" and st: "adverse_state s"
    and a: "node_order (node (ls_g s) ''A'') = Some 1"
    using adverse_run by blast
  from order_commits_least_count_seen [OF adverse_setup(1,2) run]
  obtain e where e: "e \<in> set (ls_log s)" and best: "ls_best s = Some (se_layering e)"
    and cc: "ls_bestCC s = Some (se_cc e)"
    by blast
  have "se_cc e = 1" "se_layering e = reversed" using st e by (simp_all add: adverse_state_def)
  then have b: "ls_best s = Some reversed" "ls_bestCC s = Some 1" using best cc by simp_all
  show ?thesis
  proof (intro conjI exI)
    show "custom_strategy None = None" by (rule adverse_setup(1))
    show "\<not> heuristic_disabled None" by (rule adverse_setup(2))
    show "order adverse None ex_cross 0 = Some (Inr s)" by (rule run)
    show "ls_best s = Some reversed" "ls_bestCC s = Some 1" by (rule b)+
    show "buildLayerMatrix (ls_g s) = Some (Inr reversed)" using st a by (rule adverse_final_count)
  qed
qed

text \<open>
  C2 as stated fails: the seeded order \<open>[A, B] / [C, D]\<close> of the example has no crossing,
  and with a sorter that puts \<open>B\<close> before \<open>A\<close> every sweep leaves one crossing, so the
  committed order has one crossing, more than the seeded order.
\<close>

theorem order_worse_than_seed_counterexample:
  "\<exists>g1 s. assignOrder ex_cross (map (map Some) (initOrder adverse ex_cross)) = Inr g1
        \<and> buildLayerMatrix g1 = Some (Inr seed_order)
        \<and> crossCount adverse g1 seed_order = 0
        \<and> order adverse None ex_cross 0 = Some (Inr s)
        \<and> buildLayerMatrix (ls_g s) = Some (Inr reversed)
        \<and> crossCount adverse (ls_g s) reversed = 1"
proof -
  obtain s where run: "order adverse None ex_cross 0 = Some (Inr s)" and st: "adverse_state s"
    and a: "node_order (node (ls_g s) ''A'') = Some 1"
    using adverse_run by blast
  show ?thesis
  proof (intro exI conjI)
    show "assignOrder ex_cross (map (map Some) (initOrder adverse ex_cross)) = Inr seeded"
      by (rule seeded_run)
    show "buildLayerMatrix seeded = Some (Inr seed_order)" by (rule seeded_count)
    show "crossCount adverse seeded seed_order = 0" by (rule seeded_count)
    show "order adverse None ex_cross 0 = Some (Inr s)" by (rule run)
    show "buildLayerMatrix (ls_g s) = Some (Inr reversed)" using st a by (rule adverse_final_count)
    show "crossCount adverse (ls_g s) reversed = 1" using st a by (rule adverse_final_count)
  qed
qed

text \<open>
  C10. In a run of the default algorithm that returns, the main graph afterwards has the
  nodes, parents, edges, edge labels and graph label it had before, and every node label
  differs from the one before at most in its \<open>order\<close> field; \<open>rank\<close> in particular is
  unchanged.
\<close>

theorem order_writes_order_only:
  assumes "custom_strategy options = None" and "order c options g idCounter = Some (Inr s)"
  shows "nodes (ls_g s) = nodes g \<and> parent (ls_g s) = parent g \<and> edges (ls_g s) = edges g
       \<and> edge (ls_g s) = edge g \<and> graph (ls_g s) = graph g
       \<and> (\<forall>v. \<exists>ord. node (ls_g s) v = (node g v)\<lparr> node_order := ord \<rparr>)"
proof -
  have f: "same_but_order g (ls_g s)" using assms by (rule order_frame)
  then have "\<forall>v. node (ls_g s) v = (node g v)\<lparr> node_order := node_order (node (ls_g s) v) \<rparr>"
    by (auto simp: same_but_order_def intro: erase_order_eq)
  then have "\<forall>v. \<exists>ord. node (ls_g s) v = (node g v)\<lparr> node_order := ord \<rparr>" by blast
  then show ?thesis using f by (simp add: same_but_order_def)
qed

theorem order_writes_order_only_witness:
  "custom_strategy None = None
   \<and> (\<exists>s. order adverse None ex_cross 0 = Some (Inr s)
          \<and> nodes (ls_g s) = nodes ex_cross \<and> edges (ls_g s) = edges ex_cross
          \<and> edge (ls_g s) = edge ex_cross \<and> graph (ls_g s) = graph ex_cross
          \<and> node (ls_g s) ''A'' = (node ex_cross ''A'')\<lparr> node_order := Some 1 \<rparr>
          \<and> node_rank (node (ls_g s) ''A'') = node_rank (node ex_cross ''A''))"
proof -
  obtain s where run: "order adverse None ex_cross 0 = Some (Inr s)"
    and a: "node_order (node (ls_g s) ''A'') = Some 1"
    using adverse_run by blast
  note frame = order_writes_order_only [OF adverse_setup(1) run]
  from frame obtain ord where lbl: "node (ls_g s) ''A'' = (node ex_cross ''A'')\<lparr> node_order := ord \<rparr>"
    by blast
  then have "ord = Some 1" using a by simp
  then have l1: "node (ls_g s) ''A'' = (node ex_cross ''A'')\<lparr> node_order := Some 1 \<rparr>"
    using lbl by simp
  show ?thesis
  proof (intro conjI exI)
    show "custom_strategy None = None" by (rule adverse_setup(1))
    show "order adverse None ex_cross 0 = Some (Inr s)" by (rule run)
    show "nodes (ls_g s) = nodes ex_cross" "edges (ls_g s) = edges ex_cross"
      "edge (ls_g s) = edge ex_cross" "graph (ls_g s) = graph ex_cross"
      using frame by simp_all
    show "node (ls_g s) ''A'' = (node ex_cross ''A'')\<lparr> node_order := Some 1 \<rparr>" by (rule l1)
    show "node_rank (node (ls_g s) ''A'') = node_rank (node ex_cross ''A'')" using l1 by simp
  qed
qed

end
